theory Spec2Isabelle
  imports Main
begin

section \<open>Memory model\<close>

text \<open>
  The program of \<^verbatim>\<open>source3/utils/regedit_treeview.c\<close> works on heap objects that
  point at each other. A pointer is an optional address (\<open>None\<close> is \<^verbatim>\<open>NULL\<close>).
  A store is an arena: the cell of address \<open>a\<close> is the \<open>a\<close>-th entry, a released
  cell holds \<open>None\<close>, an allocation adds a cell at the end, so that an address is
  never handed out twice and a pointer to a released cell stays recognisable.
\<close>

type_synonym addr = nat

type_synonym 'a store = "'a option list"

definition lookup :: "'a store \<Rightarrow> addr \<Rightarrow> 'a option" where
  "lookup s a = (if a < length s then s ! a else None)"

definition alloc :: "'a store \<Rightarrow> 'a \<Rightarrow> addr \<times> 'a store" where
  "alloc s v = (length s, s @ [Some v])"

definition release :: "'a store \<Rightarrow> addr \<Rightarrow> 'a store" where
  "release s a = s[a := None]"

definition modify :: "'a store \<Rightarrow> addr \<Rightarrow> ('a \<Rightarrow> 'a) \<Rightarrow> 'a store" where
  "modify s a f = (case lookup s a of None \<Rightarrow> s | Some v \<Rightarrow> s[a := Some (f v)])"

text \<open>
  What stops a run other than a return: a failed \<^verbatim>\<open>SMB_ASSERT\<close>, and the use of a
  null or released pointer (undefined behaviour in C).
\<close>

datatype fault = AssertFailed | BadPointer

datatype werror = WERR_OK | WERR_NOMEM

section \<open>Tree nodes\<close>

text \<open>
  \<^verbatim>\<open>struct tree_node\<close>, with the fields the source file uses. \<open>name\<close> and \<open>label\<close>
  point into the store of strings, the other four into the store of nodes.
  The field \<^verbatim>\<open>next\<close> is called \<open>next_node\<close> here.
\<close>

record tree_node =
  name :: "addr option"
  label :: "addr option"
  parent :: "addr option"
  child_head :: "addr option"
  previous :: "addr option"
  next_node :: "addr option"

text \<open>
  An \<^verbatim>\<open>ITEM\<close> of the menu library, as far as the program uses it: the two strings
  given to \<^verbatim>\<open>new_item\<close> (kept by pointer, the library does not copy them) and the
  user pointer.
\<close>

record item =
  item_name :: "addr option"
  item_description :: "addr option"
  item_userptr :: "addr option"

record memory =
  nodes :: "tree_node store"
  strs :: "string store"
  items :: "item store"

text \<open>What \<^verbatim>\<open>talloc_zero\<close> returns: every field null.\<close>

definition zero_node :: tree_node where
  "zero_node = \<lparr>name = None, label = None, parent = None, child_head = None,
                 previous = None, next_node = None\<rparr>"

text \<open>
  \<^verbatim>\<open>tree_node_new\<close>. The two booleans say whether \<^verbatim>\<open>talloc_zero\<close> and
  \<^verbatim>\<open>talloc_strdup\<close> succeed. When the second fails the node allocated by the first
  stays in the arena, as in the source.
\<close>

definition tree_node_new ::
  "bool \<Rightarrow> bool \<Rightarrow> memory \<Rightarrow> addr option \<Rightarrow> string \<Rightarrow> fault + (addr option \<times> memory)" where
  "tree_node_new node_ok name_ok m par nm =
    (if \<not> node_ok then Inr (None, m)
     else
       let (node, ns1) = alloc (nodes m) zero_node in
       if \<not> name_ok then Inr (None, m\<lparr>nodes := ns1\<rparr>)
       else
         let (s, ss1) = alloc (strs m) nm;
             ns2 = modify ns1 node (\<lambda>n. n\<lparr>name := Some s\<rparr>)
         in (case par of
               None \<Rightarrow> Inr (Some node, m\<lparr>nodes := ns2, strs := ss1\<rparr>)
             | Some p \<Rightarrow>
                 (case lookup ns2 p of
                    None \<Rightarrow> Inl BadPointer
                  | Some pn \<Rightarrow>
                      let ns3 = (if child_head pn = None
                                 then modify ns2 p (\<lambda>n. n\<lparr>child_head := Some node\<rparr>)
                                 else ns2);
                          ns4 = modify ns3 node (\<lambda>n. n\<lparr>parent := Some p\<rparr>)
                      in Inr (Some node, m\<lparr>nodes := ns4, strs := ss1\<rparr>))))"

text \<open>\<^verbatim>\<open>tree_node_append\<close>: four field writes, in the order of the source.\<close>

definition tree_node_append ::
  "tree_node store \<Rightarrow> addr option \<Rightarrow> addr option \<Rightarrow> fault + tree_node store" where
  "tree_node_append ns left right =
    (case (left, right) of
       (Some l, Some r) \<Rightarrow>
         (case (lookup ns l, lookup ns r) of
            (Some ln, Some rn) \<Rightarrow>
              (case next_node ln of
                 None \<Rightarrow>
                   Inr (modify (modify ns l (\<lambda>n. n\<lparr>next_node := Some r\<rparr>))
                          r (\<lambda>n. n\<lparr>previous := Some l\<rparr>))
               | Some x \<Rightarrow>
                   let ns1 = modify ns r (\<lambda>n. n\<lparr>next_node := Some x\<rparr>) in
                   (case lookup ns1 l of
                      None \<Rightarrow> Inl BadPointer
                    | Some ln1 \<Rightarrow>
                        (case next_node ln1 of
                           None \<Rightarrow> Inl BadPointer
                         | Some y \<Rightarrow>
                             if lookup ns1 y = None then Inl BadPointer
                             else
                               let ns2 = modify ns1 y (\<lambda>n. n\<lparr>previous := Some r\<rparr>);
                                   ns3 = modify ns2 l (\<lambda>n. n\<lparr>next_node := Some r\<rparr>)
                               in Inr (modify ns3 r (\<lambda>n. n\<lparr>previous := Some l\<rparr>)))))
          | _ \<Rightarrow> Inl BadPointer)
     | _ \<Rightarrow> Inl BadPointer)"

text \<open>
  \<^verbatim>\<open>tree_node_pop\<close>. The caller's variable \<^verbatim>\<open>*plist\<close> is passed in and its new value
  is the third component of the result (the variable is taken not to be a field
  of a node, as in the one call of the source file, which passes the address of
  a local). The result is the popped node, the new store and the new \<^verbatim>\<open>*plist\<close>.
\<close>

definition tree_node_pop ::
  "tree_node store \<Rightarrow> addr option \<Rightarrow> fault + (addr option \<times> tree_node store \<times> addr option)" where
  "tree_node_pop ns plist =
    (case plist of
       None \<Rightarrow> Inr (None, ns, None)
     | Some node \<Rightarrow>
         (case lookup ns node of
            None \<Rightarrow> Inl BadPointer
          | Some nd \<Rightarrow>
              let plist1 = (if previous nd = None then next_node nd else previous nd) in
              (case (case previous nd of
                       None \<Rightarrow> Inr ns
                     | Some p \<Rightarrow>
                         if lookup ns p = None then Inl BadPointer
                         else Inr (modify ns p (\<lambda>n. n\<lparr>next_node := next_node nd\<rparr>))) of
                 Inl e \<Rightarrow> Inl e
               | Inr ns1 \<Rightarrow>
                   (case lookup ns1 node of
                      None \<Rightarrow> Inl BadPointer
                    | Some nd1 \<Rightarrow>
                        (case (case next_node nd1 of
                                 None \<Rightarrow> Inr ns1
                               | Some x \<Rightarrow>
                                   if lookup ns1 x = None then Inl BadPointer
                                   else Inr (modify ns1 x (\<lambda>n. n\<lparr>previous := previous nd1\<rparr>))) of
                           Inl e \<Rightarrow> Inl e
                         | Inr ns2 \<Rightarrow>
                             Inr (Some node,
                                  modify ns2 node (\<lambda>n. n\<lparr>next_node := None, previous := None\<rparr>),
                                  plist1))))))"

text \<open>
  \<^verbatim>\<open>tree_node_first\<close>. The \<^verbatim>\<open>while\<close> loop over \<^verbatim>\<open>previous\<close> may run forever on a
  cyclic chain: not returning is the value \<open>None\<close>.
\<close>

partial_function (option) walk_previous ::
  "tree_node store \<Rightarrow> addr option \<Rightarrow> (fault + addr option) option" where
  "walk_previous ns list =
    (case list of
       None \<Rightarrow> Some (Inr None)
     | Some a \<Rightarrow>
         (case lookup ns a of
            None \<Rightarrow> Some (Inl BadPointer)
          | Some nd \<Rightarrow>
              (case previous nd of
                 None \<Rightarrow> Some (Inr (Some a))
               | Some p \<Rightarrow> walk_previous ns (Some p))))"

definition tree_node_first ::
  "tree_node store \<Rightarrow> addr option \<Rightarrow> (fault + addr option) option" where
  "tree_node_first ns list =
    (case list of
       None \<Rightarrow> Some (Inl BadPointer)
     | Some a \<Rightarrow>
         (case lookup ns a of
            None \<Rightarrow> Some (Inl BadPointer)
          | Some nd \<Rightarrow>
              (case parent nd of
                 Some p \<Rightarrow>
                   (case lookup ns p of
                      None \<Rightarrow> Some (Inl BadPointer)
                    | Some pn \<Rightarrow> Some (Inr (child_head pn)))
               | None \<Rightarrow> walk_previous ns list)))"

text \<open>
  \<^verbatim>\<open>tree_node_free\<close>: three assertions, then the name and the node are released
  (\<^verbatim>\<open>talloc_free\<close> of a null name does nothing).
\<close>

definition tree_node_free :: "memory \<Rightarrow> addr option \<Rightarrow> fault + memory" where
  "tree_node_free m node =
    (case node of
       None \<Rightarrow> Inl BadPointer
     | Some a \<Rightarrow>
         (case lookup (nodes m) a of
            None \<Rightarrow> Inl BadPointer
          | Some nd \<Rightarrow>
              if child_head nd \<noteq> None then Inl AssertFailed
              else if next_node nd \<noteq> None then Inl AssertFailed
              else if previous nd \<noteq> None then Inl AssertFailed
              else
                (case name nd of
                   None \<Rightarrow> Inr (m\<lparr>nodes := release (nodes m) a\<rparr>)
                 | Some s \<Rightarrow>
                     if lookup (strs m) s = None then Inl BadPointer
                     else Inr (m\<lparr>strs := release (strs m) s,
                                 nodes := release (nodes m) a\<rparr>))))"

text \<open>
  \<^verbatim>\<open>tree_node_free_recursive\<close>. The state is the memory together with the list of
  the nodes handed to \<^verbatim>\<open>tree_node_free\<close> so far, oldest first. The test
  \<^verbatim>\<open>list == NULL\<close> at the entry is the loop's own exit, since \<^verbatim>\<open>tree_node_pop\<close>
  returns null on a null reference. A cyclic structure may keep the function
  running: that is the value \<open>None\<close>.
\<close>

partial_function (option) tree_node_free_recursive ::
  "memory \<times> addr list \<Rightarrow> addr option \<Rightarrow> (fault + memory \<times> addr list) option" where
  "tree_node_free_recursive st list =
    (case tree_node_pop (nodes (fst st)) list of
       Inl e \<Rightarrow> Some (Inl e)
     | Inr (None, ns1, list1) \<Rightarrow> Some (Inr st)
     | Inr (Some node, ns1, list1) \<Rightarrow>
         (case lookup ns1 node of
            None \<Rightarrow> Some (Inl BadPointer)
          | Some nd \<Rightarrow>
              Option.bind
                (if child_head nd \<noteq> None
                 then tree_node_free_recursive ((fst st)\<lparr>nodes := ns1\<rparr>, snd st) (child_head nd)
                 else Some (Inr ((fst st)\<lparr>nodes := ns1\<rparr>, snd st)))
                (\<lambda>r. case r of
                       Inl e \<Rightarrow> Some (Inl e)
                     | Inr (m2, log2) \<Rightarrow>
                         (case tree_node_free
                                 (m2\<lparr>nodes := modify (nodes m2) node (\<lambda>n. n\<lparr>child_head := None\<rparr>)\<rparr>)
                                 (Some node) of
                            Inl e \<Rightarrow> Some (Inl e)
                          | Inr m3 \<Rightarrow> tree_node_free_recursive (m3, log2 @ [node]) list1))))"

section \<open>The tree view\<close>

text \<open>
  \<^verbatim>\<open>struct tree_view\<close>: the root, the array \<^verbatim>\<open>current_items\<close> (null, or an array of
  item pointers that ends with a null entry), and of the menu what the program
  sets: the array given to \<^verbatim>\<open>set_menu_items\<close> and whether the menu is posted.
  The calls \<^verbatim>\<open>unpost_menu\<close>, \<^verbatim>\<open>set_menu_items\<close>, \<^verbatim>\<open>post_menu\<close> and \<^verbatim>\<open>free_item\<close> are these
  assignments and a release of the item; the program ignores their return
  values, and the model has none.  The windows are not part of the model.
\<close>

record tree_view =
  root :: "addr option"
  current_items :: "addr option list option"
  menu_items :: "addr option list"
  menu_posted :: bool

text \<open>
  The outcome of the allocations of one \<^verbatim>\<open>tree_view_update\<close>: of the array, and, for
  the node visited at step \<open>i\<close> of the second loop, of \<^verbatim>\<open>talloc_asprintf\<close> and of
  \<^verbatim>\<open>new_item\<close> (which returns null when it fails).
\<close>

record alloc_env =
  items_ok :: bool
  label_ok :: "nat \<Rightarrow> bool"
  item_ok :: "nat \<Rightarrow> bool"

definition new_item :: "bool \<Rightarrow> memory \<Rightarrow> addr option \<Rightarrow> addr option \<Rightarrow> addr option \<times> memory" where
  "new_item ok m nm descr =
    (if ok
     then (let (it, is1) = alloc (items m)
                 \<lparr>item_name = nm, item_description = descr, item_userptr = None\<rparr>
           in (Some it, m\<lparr>items := is1\<rparr>))
     else (None, m))"

text \<open>On a null item the library writes to its default item, which is not part of the model.\<close>

definition set_item_userptr :: "memory \<Rightarrow> addr option \<Rightarrow> addr option \<Rightarrow> memory" where
  "set_item_userptr m it p =
    (case it of
       None \<Rightarrow> m
     | Some i \<Rightarrow> m\<lparr>items := modify (items m) i (\<lambda>x. x\<lparr>item_userptr := p\<rparr>)\<rparr>)"

text \<open>
  The loop of \<^verbatim>\<open>tree_view_free_current_items\<close> over the entries of the array up to
  the first null one. Running off the end of an array without a null entry is a
  bad read.
\<close>

fun free_items_loop :: "memory \<Rightarrow> addr option list \<Rightarrow> fault + memory" where
  "free_items_loop m [] = Inl BadPointer"
| "free_items_loop m (None # rest) = Inr m"
| "free_items_loop m (Some it # rest) =
    (case lookup (items m) it of
       None \<Rightarrow> Inl BadPointer
     | Some i \<Rightarrow>
         (case (case item_userptr i of
                  None \<Rightarrow> Inr m
                | Some t \<Rightarrow>
                    (case lookup (nodes m) t of
                       None \<Rightarrow> Inl BadPointer
                     | Some nd \<Rightarrow>
                         (case label nd of
                            None \<Rightarrow> Inr m
                          | Some l \<Rightarrow>
                              if lookup (strs m) l = None then Inl BadPointer
                              else Inr (m\<lparr>strs := release (strs m) l,
                                          nodes := modify (nodes m) t (\<lambda>n. n\<lparr>label := None\<rparr>)\<rparr>)))) of
            Inl e \<Rightarrow> Inl e
          | Inr m1 \<Rightarrow> free_items_loop (m1\<lparr>items := release (items m1) it\<rparr>) rest))"

definition tree_view_free_current_items :: "memory \<Rightarrow> tree_view \<Rightarrow> fault + memory \<times> tree_view" where
  "tree_view_free_current_items m view =
    (case current_items view of
       None \<Rightarrow> Inr (m, view)
     | Some arr \<Rightarrow>
         (case free_items_loop m arr of
            Inl e \<Rightarrow> Inl e
          | Inr m1 \<Rightarrow> Inr (m1, view\<lparr>current_items := None\<rparr>)))"

text \<open>The first loop of \<^verbatim>\<open>tree_view_update\<close>: the number of nodes reached over \<^verbatim>\<open>next\<close>.\<close>

partial_function (option) count_items ::
  "tree_node store \<Rightarrow> addr option \<Rightarrow> nat \<Rightarrow> (fault + nat) option" where
  "count_items ns tmp n =
    (case tmp of
       None \<Rightarrow> Some (Inr n)
     | Some a \<Rightarrow>
         (case lookup ns a of
            None \<Rightarrow> Some (Inl BadPointer)
          | Some nd \<Rightarrow> count_items ns (next_node nd) (Suc n)))"

text \<open>
  The text of one item, as the body of the second loop derives it: the name,
  or a fresh label \<^verbatim>\<open>"+name"\<close> stored in the node when the node has a child.
  \<open>Inr None\<close> is the return of \<^verbatim>\<open>W_ERROR_HAVE_NO_MEMORY\<close>.
\<close>

definition derive_label ::
  "bool \<Rightarrow> memory \<Rightarrow> addr \<Rightarrow> tree_node \<Rightarrow> fault + (addr option \<times> memory) option" where
  "derive_label ok m a nd =
    (if child_head nd \<noteq> None then
       (if label nd \<noteq> None then Inl AssertFailed
        else
          (case name nd of
             None \<Rightarrow> Inl BadPointer
           | Some s \<Rightarrow>
               (case lookup (strs m) s of
                  None \<Rightarrow> Inl BadPointer
                | Some txt \<Rightarrow>
                    if \<not> ok then Inr None
                    else
                      let (l, ss1) = alloc (strs m) (CHR ''+'' # txt) in
                      Inr (Some (Some l,
                                 m\<lparr>strs := ss1,
                                   nodes := modify (nodes m) a (\<lambda>n. n\<lparr>label := Some l\<rparr>)\<rparr>)))))
     else Inr (Some (name nd, m)))"

text \<open>The second loop of \<^verbatim>\<open>tree_view_update\<close>; \<open>arr\<close> is the array \<^verbatim>\<open>items\<close>.\<close>

partial_function (option) build_items ::
  "alloc_env \<Rightarrow> memory \<Rightarrow> addr option \<Rightarrow> nat \<Rightarrow> addr option list \<Rightarrow>
     (fault + werror \<times> memory \<times> addr option list) option" where
  "build_items env m tmp i arr =
    (case tmp of
       None \<Rightarrow> Some (Inr (WERR_OK, m, arr))
     | Some a \<Rightarrow>
         (case lookup (nodes m) a of
            None \<Rightarrow> Some (Inl BadPointer)
          | Some nd \<Rightarrow>
              (case derive_label (label_ok env i) m a nd of
                 Inl e \<Rightarrow> Some (Inl e)
               | Inr None \<Rightarrow> Some (Inr (WERR_NOMEM, m, arr))
               | Inr (Some (lab, m1)) \<Rightarrow>
                   if \<not> i < length arr then Some (Inl BadPointer)
                   else
                     let (it, m2) = new_item (item_ok env i) m1 lab (name nd) in
                     build_items env (set_item_userptr m2 it (Some a)) (next_node nd) (Suc i)
                       (arr[i := it]))))"

definition tree_view_update ::
  "alloc_env \<Rightarrow> memory \<Rightarrow> tree_view \<Rightarrow> addr option \<Rightarrow>
     (fault + werror \<times> memory \<times> tree_view) option" where
  "tree_view_update env m view list0 =
    (let list = (if list0 = None then root view else list0) in
     case count_items (nodes m) list 0 of
       None \<Rightarrow> None
     | Some (Inl e) \<Rightarrow> Some (Inl e)
     | Some (Inr n_items) \<Rightarrow>
         if \<not> items_ok env then Some (Inr (WERR_NOMEM, m, view))
         else
           (case build_items env m list 0 (replicate (n_items + 1) None) of
              None \<Rightarrow> None
            | Some (Inl e) \<Rightarrow> Some (Inl e)
            | Some (Inr (WERR_NOMEM, m1, arr)) \<Rightarrow> Some (Inr (WERR_NOMEM, m1, view))
            | Some (Inr (WERR_OK, m1, arr)) \<Rightarrow>
                (case tree_view_free_current_items m1
                        (view\<lparr>menu_posted := False, menu_items := arr\<rparr>) of
                   Inl e \<Rightarrow> Some (Inl e)
                 | Inr (m2, view2) \<Rightarrow>
                     Some (Inr (WERR_OK, m2, view2\<lparr>current_items := Some arr\<rparr>)))))"

definition tree_view_show :: "tree_view \<Rightarrow> tree_view" where
  "tree_view_show view = view\<lparr>menu_posted := True\<rparr>"

text \<open>
  \<^verbatim>\<open>tree_view_new\<close>, in two parts: what it does before it calls
  \<^verbatim>\<open>tree_view_update\<close>, and the whole. The booleans are the outcomes of the
  allocation of the view, of the array of two entries and of the placeholder
  item. The static string \<^verbatim>\<open>"12345"\<close> is given a cell of the string store. The
  result of the update is dropped, as in the source.
\<close>

definition tree_view_init ::
  "bool \<Rightarrow> bool \<Rightarrow> bool \<Rightarrow> memory \<Rightarrow> addr option \<Rightarrow> tree_view option \<times> memory" where
  "tree_view_init view_ok arr_ok dummy_ok m rt =
    (if \<not> view_ok then (None, m)
     else if \<not> arr_ok then (None, m)
     else
       let (d, ss1) = alloc (strs m) ''12345'';
           (it, m1) = new_item dummy_ok (m\<lparr>strs := ss1\<rparr>) (Some d) (Some d)
       in (Some \<lparr>root = rt, current_items = Some [it, None],
                 menu_items = [it, None], menu_posted = False\<rparr>, m1))"

definition tree_view_new ::
  "bool \<Rightarrow> bool \<Rightarrow> bool \<Rightarrow> alloc_env \<Rightarrow> memory \<Rightarrow> addr option \<Rightarrow>
     (fault + tree_view option \<times> memory) option" where
  "tree_view_new view_ok arr_ok dummy_ok env m rt =
    (case tree_view_init view_ok arr_ok dummy_ok m rt of
       (None, m1) \<Rightarrow> Some (Inr (None, m1))
     | (Some view, m1) \<Rightarrow>
         (case tree_view_update env m1 view rt of
            None \<Rightarrow> None
          | Some (Inl e) \<Rightarrow> Some (Inl e)
          | Some (Inr (w, m2, view2)) \<Rightarrow> Some (Inr (Some view2, m2))))"

section \<open>Chains and forests in the store\<close>

text \<open>
  \<open>next_path ns p xs\<close>: walking \<^verbatim>\<open>next\<close> from the pointer \<open>p\<close> visits exactly the
  nodes \<open>xs\<close> and then reaches null.
\<close>

fun next_path :: "tree_node store \<Rightarrow> addr option \<Rightarrow> addr list \<Rightarrow> bool" where
  "next_path ns p [] = (p = None)"
| "next_path ns p (x # xs) =
    (p = Some x \<and>
     (case lookup ns x of None \<Rightarrow> False | Some nd \<Rightarrow> next_path ns (next_node nd) xs))"

fun first_or :: "addr option \<Rightarrow> addr list \<Rightarrow> addr option" where
  "first_or n [] = n"
| "first_or n (y # ys) = Some y"

definition last_or :: "addr option \<Rightarrow> addr list \<Rightarrow> addr option" where
  "last_or p xs = (if xs = [] then p else Some (last xs))"

text \<open>
  \<open>dll ns p xs n\<close>: the nodes \<open>xs\<close> are linked to each other in this order by
  \<^verbatim>\<open>previous\<close> and \<^verbatim>\<open>next\<close>; the first has \<open>p\<close> before it, the last has \<open>n\<close> after it.
  A sibling chain is \<open>dll ns None xs None\<close> with \<open>xs\<close> distinct.
\<close>

fun dll :: "tree_node store \<Rightarrow> addr option \<Rightarrow> addr list \<Rightarrow> addr option \<Rightarrow> bool" where
  "dll ns p [] n = True"
| "dll ns p (x # xs) n =
    (case lookup ns x of
       None \<Rightarrow> False
     | Some nd \<Rightarrow> previous nd = p \<and> next_node nd = first_or n xs \<and> dll ns (Some x) xs n)"

definition detached :: "tree_node store \<Rightarrow> addr \<Rightarrow> bool" where
  "detached ns a =
    (case lookup ns a of None \<Rightarrow> False | Some nd \<Rightarrow> previous nd = None \<and> next_node nd = None)"

text \<open>
  Repeated pops from one reference, until \<^verbatim>\<open>tree_node_pop\<close> returns null (the loop
  head of \<^verbatim>\<open>tree_node_free_recursive\<close>); the popped nodes are collected in order.
\<close>

partial_function (option) pop_all ::
  "tree_node store \<Rightarrow> addr option \<Rightarrow> addr list \<Rightarrow> (fault + addr list \<times> tree_node store) option" where
  "pop_all ns list acc =
    (case tree_node_pop ns list of
       Inl e \<Rightarrow> Some (Inl e)
     | Inr (None, ns1, list1) \<Rightarrow> Some (Inr (acc, ns1))
     | Inr (Some node, ns1, list1) \<Rightarrow> pop_all ns1 list1 (acc @ [node]))"

text \<open>
  A chain built through the interface: the first node is created under the
  parent \<open>pp\<close>, then each step \<open>(k, nm)\<close> creates a node named \<open>nm\<close> under \<open>pp\<close> and
  appends it after the \<open>k\<close>-th node of the chain so far. The result is the
  memory and the chain in its order.
\<close>

fun grow_chain ::
  "memory \<Rightarrow> addr option \<Rightarrow> addr list \<Rightarrow> (nat \<times> string) list \<Rightarrow> (memory \<times> addr list) option" where
  "grow_chain m pp xs [] = Some (m, xs)"
| "grow_chain m pp xs ((k, nm) # ops) =
    (if k < length xs then
       (case tree_node_new True True m pp nm of
          Inr (Some r, m1) \<Rightarrow>
            (case tree_node_append (nodes m1) (Some (xs ! k)) (Some r) of
               Inr ns \<Rightarrow>
                 grow_chain (m1\<lparr>nodes := ns\<rparr>) pp (take (Suc k) xs @ r # drop (Suc k) xs) ops
             | Inl e \<Rightarrow> None)
        | _ \<Rightarrow> None)
     else None)"

definition new_chain ::
  "memory \<Rightarrow> addr option \<Rightarrow> string \<Rightarrow> (nat \<times> string) list \<Rightarrow> (memory \<times> addr list) option" where
  "new_chain m pp nm ops =
    (case tree_node_new True True m pp nm of
       Inr (Some h, m1) \<Rightarrow> grow_chain m1 pp [h] ops
     | _ \<Rightarrow> None)"

text \<open>
  A forest: each tree is the address of a node with the forest of its
  children. \<open>wf_forest m p ts\<close> says that the store holds \<open>ts\<close>: the roots are a
  chain that starts after \<open>p\<close>, each \<^verbatim>\<open>child_head\<close> is the first child (null without
  children), each child chain starts with a null \<^verbatim>\<open>previous\<close>, and a name that
  is not null is allocated.
\<close>

datatype tree = Node addr "tree list"

fun first_root :: "tree list \<Rightarrow> addr option" where
  "first_root [] = None"
| "first_root (Node a cs # ts) = Some a"

fun addrs_of :: "tree list \<Rightarrow> addr list" where
  "addrs_of [] = []"
| "addrs_of (Node a cs # ts) = a # addrs_of cs @ addrs_of ts"

fun postorder :: "tree list \<Rightarrow> addr list" where
  "postorder [] = []"
| "postorder (Node a cs # ts) = postorder cs @ a # postorder ts"

fun wf_forest :: "memory \<Rightarrow> addr option \<Rightarrow> tree list \<Rightarrow> bool" where
  "wf_forest m p [] = True"
| "wf_forest m p (Node a cs # ts) =
    (case lookup (nodes m) a of
       None \<Rightarrow> False
     | Some nd \<Rightarrow>
         previous nd = p \<and> next_node nd = first_root ts \<and> child_head nd = first_root cs \<and>
         (case name nd of None \<Rightarrow> True | Some s \<Rightarrow> lookup (strs m) s \<noteq> None) \<and>
         wf_forest m None cs \<and> wf_forest m (Some a) ts)"

definition name_of :: "memory \<Rightarrow> addr \<Rightarrow> addr option" where
  "name_of m a = (case lookup (nodes m) a of None \<Rightarrow> None | Some nd \<Rightarrow> name nd)"

definition names_of :: "memory \<Rightarrow> addr list \<Rightarrow> addr list" where
  "names_of m as = List.map_filter (name_of m) as"

text \<open>\<open>children_first ts log\<close>: in \<open>log\<close>, every node of \<open>ts\<close> comes after all nodes below it.\<close>

fun children_first :: "tree list \<Rightarrow> addr list \<Rightarrow> bool" where
  "children_first [] log = True"
| "children_first (Node a cs # ts) log =
    ((\<forall>c \<in> set (addrs_of cs). c \<in> set (takeWhile (\<lambda>x. x \<noteq> a) log)) \<and>
     children_first cs log \<and> children_first ts log)"

section \<open>What a view shows\<close>

text \<open>The entries of an item array up to the first null one.\<close>

fun entries :: "addr option list \<Rightarrow> addr list" where
  "entries [] = []"
| "entries (None # rest) = []"
| "entries (Some it # rest) = it # entries rest"

definition item_text :: "memory \<Rightarrow> addr \<Rightarrow> string option" where
  "item_text m it =
    (case lookup (items m) it of
       None \<Rightarrow> None
     | Some i \<Rightarrow> (case item_name i of None \<Rightarrow> None | Some s \<Rightarrow> lookup (strs m) s))"

definition item_node :: "memory \<Rightarrow> addr \<Rightarrow> addr option" where
  "item_node m it =
    (case lookup (items m) it of None \<Rightarrow> None | Some i \<Rightarrow> item_userptr i)"

text \<open>
  The texts and the user pointers of the items of the menu, in order. A text is
  \<open>None\<close> when the item's string has been released.
\<close>

definition displayed :: "memory \<Rightarrow> tree_view \<Rightarrow> string option list" where
  "displayed m view = map (item_text m) (entries (menu_items view))"

definition back_refs :: "memory \<Rightarrow> tree_view \<Rightarrow> addr option list" where
  "back_refs m view = map (item_node m) (entries (menu_items view))"

definition label_text :: "memory \<Rightarrow> addr \<Rightarrow> string option" where
  "label_text m a =
    (case lookup (nodes m) a of
       None \<Rightarrow> None
     | Some nd \<Rightarrow> (case label nd of None \<Rightarrow> None | Some l \<Rightarrow> lookup (strs m) l))"

definition name_text :: "memory \<Rightarrow> addr \<Rightarrow> string option" where
  "name_text m a =
    (case lookup (nodes m) a of
       None \<Rightarrow> None
     | Some nd \<Rightarrow> (case name nd of None \<Rightarrow> None | Some l \<Rightarrow> lookup (strs m) l))"

text \<open>The nodes that the items of \<^verbatim>\<open>current_items\<close> point to.\<close>

definition referenced :: "memory \<Rightarrow> tree_view \<Rightarrow> addr list" where
  "referenced m view =
    (case current_items view of
       None \<Rightarrow> []
     | Some arr \<Rightarrow> List.map_filter (item_node m) (entries arr))"

text \<open>\<open>label_inv\<close>: a node with a label is referenced by the current items.\<close>

definition label_inv :: "memory \<Rightarrow> tree_view \<Rightarrow> bool" where
  "label_inv m view =
    (\<forall>a \<in> set [0..<length (nodes m)].
       case lookup (nodes m) a of
         None \<Rightarrow> True
       | Some nd \<Rightarrow> label nd = None \<or> a \<in> set (referenced m view))"

definition all_ok :: alloc_env where
  "all_ok = \<lparr>items_ok = True, label_ok = (\<lambda>i. True), item_ok = (\<lambda>i. True)\<rparr>"

definition empty_memory :: memory where
  "empty_memory = \<lparr>nodes = [], strs = [], items = []\<rparr>"

section \<open>Properties of a memory\<close>

text \<open>
  \<open>sibling_chain ns pp xs\<close>: \<open>xs\<close> is a chain without repetition whose nodes all
  have the parent \<open>pp\<close>, and a parent that is not null has the first node of \<open>xs\<close>
  as its \<^verbatim>\<open>child_head\<close>.
\<close>

definition sibling_chain :: "tree_node store \<Rightarrow> addr option \<Rightarrow> addr list \<Rightarrow> bool" where
  "sibling_chain ns pp xs =
    (xs \<noteq> [] \<and> distinct xs \<and> dll ns None xs None \<and>
     list_all (\<lambda>x. map_option parent (lookup ns x) = Some pp) xs \<and>
     (case pp of
        None \<Rightarrow> True
      | Some p \<Rightarrow> p \<notin> set xs \<and> map_option child_head (lookup ns p) = Some (Some (hd xs))))"

text \<open>
  \<open>valid_ops n ops\<close>: each step of \<open>ops\<close> names a position of the chain as it is
  when the step runs, the chain having \<open>n\<close> nodes at the start.
\<close>

fun valid_ops :: "nat \<Rightarrow> (nat \<times> string) list \<Rightarrow> bool" where
  "valid_ops n [] = True"
| "valid_ops n ((k, nm) # ops) = (k < n \<and> valid_ops (Suc n) ops)"

text \<open>The parent given to \<open>new_chain\<close>: null, or a node that has no child yet.\<close>

definition childless :: "memory \<Rightarrow> addr option \<Rightarrow> bool" where
  "childless m pp =
    (case pp of
       None \<Rightarrow> True
     | Some p \<Rightarrow> (case lookup (nodes m) p of None \<Rightarrow> False | Some pn \<Rightarrow> child_head pn = None))"

text \<open>
  \<open>released m as ss m'\<close>: \<open>m'\<close> is \<open>m\<close> with the nodes \<open>as\<close> and the strings \<open>ss\<close>
  released, and nothing else changed.
\<close>

definition released :: "memory \<Rightarrow> addr list \<Rightarrow> addr list \<Rightarrow> memory \<Rightarrow> bool" where
  "released m as ss m' =
    (items m' = items m \<and>
     (\<forall>a. lookup (nodes m') a = (if a \<in> set as then None else lookup (nodes m) a)) \<and>
     (\<forall>s. lookup (strs m') s = (if s \<in> set ss then None else lookup (strs m) s)))"

text \<open>The label pointer of a node, and whether a node has a child.\<close>

definition label_of :: "memory \<Rightarrow> addr \<Rightarrow> addr option" where
  "label_of m a = (case lookup (nodes m) a of None \<Rightarrow> None | Some nd \<Rightarrow> label nd)"

definition has_child :: "memory \<Rightarrow> addr \<Rightarrow> bool" where
  "has_child m a = (case lookup (nodes m) a of None \<Rightarrow> False | Some nd \<Rightarrow> child_head nd \<noteq> None)"

text \<open>\<open>items_live\<close>: the entries of \<^verbatim>\<open>current_items\<close> are allocated items.\<close>

definition items_live :: "memory \<Rightarrow> tree_view \<Rightarrow> bool" where
  "items_live m view =
    (case current_items view of
       None \<Rightarrow> True
     | Some arr \<Rightarrow> list_all (\<lambda>it. lookup (items m) it \<noteq> None) (entries arr))"

text \<open>
  \<open>only_labels m m1\<close>: \<open>m1\<close> is \<open>m\<close> with strings and items added and labels of
  nodes changed; no node, string or item is released and no link is changed.
\<close>

definition only_labels :: "memory \<Rightarrow> memory \<Rightarrow> bool" where
  "only_labels m m1 =
    ((\<exists>e. items m1 = items m @ e) \<and> (\<exists>e. strs m1 = strs m @ e) \<and>
     length (nodes m1) = length (nodes m) \<and>
     (\<forall>a. map_option (\<lambda>n. n\<lparr>label := None\<rparr>) (lookup (nodes m1) a) =
          map_option (\<lambda>n. n\<lparr>label := None\<rparr>) (lookup (nodes m) a)))"

section \<open>Concrete inputs\<close>

text \<open>Three nodes in a chain, in the order of their addresses.\<close>

definition chain3 :: "tree_node store" where
  "chain3 =
    [Some (zero_node\<lparr>next_node := Some 1\<rparr>),
     Some (zero_node\<lparr>previous := Some 0, next_node := Some 2\<rparr>),
     Some (zero_node\<lparr>previous := Some 1\<rparr>)]"

text \<open>A memory that holds one node, named \<^verbatim>\<open>"p"\<close>, without links.\<close>

definition one_node :: memory where
  "one_node = \<lparr>nodes = [Some (zero_node\<lparr>name := Some 0\<rparr>)], strs = [Some ''p''], items = []\<rparr>"

text \<open>
  A parent \<^verbatim>\<open>"p"\<close> (address 0) with the children \<^verbatim>\<open>"c1"\<close> and \<^verbatim>\<open>"c2"\<close> (addresses 1
  and 2) chained in this order, and the store after \<^verbatim>\<open>"c1"\<close> has been popped.
\<close>

definition family :: memory where
  "family =
    \<lparr>nodes =
       [Some (zero_node\<lparr>name := Some 0, child_head := Some 1\<rparr>),
        Some (zero_node\<lparr>name := Some 1, parent := Some 0, next_node := Some 2\<rparr>),
        Some (zero_node\<lparr>name := Some 2, parent := Some 0, previous := Some 1\<rparr>)],
     strs = [Some ''p'', Some ''c1'', Some ''c2''],
     items = []\<rparr>"

definition family_popped :: "tree_node store" where
  "family_popped =
    [Some (zero_node\<lparr>name := Some 0, child_head := Some 1\<rparr>),
     Some (zero_node\<lparr>name := Some 1, parent := Some 0\<rparr>),
     Some (zero_node\<lparr>name := Some 2, parent := Some 0\<rparr>)]"

text \<open>The calls that build \<open>family\<close>, starting from the memory that holds the parent alone.\<close>

definition build_family :: "memory option" where
  "build_family =
    (case tree_node_new True True one_node (Some 0) ''c1'' of
       Inr (c1, m1) \<Rightarrow>
         (case tree_node_new True True m1 (Some 0) ''c2'' of
            Inr (c2, m2) \<Rightarrow>
              (case tree_node_append (nodes m2) c1 c2 of
                 Inr ns \<Rightarrow> Some (m2\<lparr>nodes := ns\<rparr>)
               | Inl e \<Rightarrow> None)
          | Inl e \<Rightarrow> None)
     | Inl e \<Rightarrow> None)"

text \<open>A pop, and \<^verbatim>\<open>tree_node_first\<close> on the reference the pop leaves.\<close>

definition pop_then_first ::
  "tree_node store \<Rightarrow> addr option \<Rightarrow>
     (addr option \<times> addr option \<times> (fault + addr option) option) option" where
  "pop_then_first ns list =
    (case tree_node_pop ns list of
       Inl e \<Rightarrow> None
     | Inr (node, ns1, list1) \<Rightarrow> Some (node, list1, tree_node_first ns1 list1))"

text \<open>
  The root chain \<^verbatim>\<open>"a"\<close>, \<^verbatim>\<open>"b"\<close>, \<^verbatim>\<open>"c"\<close> (addresses 0, 1, 2) where \<^verbatim>\<open>"b"\<close> has the one
  child \<^verbatim>\<open>"b1"\<close> (address 3), and the calls that build it.
\<close>

definition abc_memory :: memory where
  "abc_memory =
    \<lparr>nodes =
       [Some (zero_node\<lparr>name := Some 0, next_node := Some 1\<rparr>),
        Some (zero_node\<lparr>name := Some 1, child_head := Some 3,
                         previous := Some 0, next_node := Some 2\<rparr>),
        Some (zero_node\<lparr>name := Some 2, previous := Some 1\<rparr>),
        Some (zero_node\<lparr>name := Some 3, parent := Some 1\<rparr>)],
     strs = [Some ''a'', Some ''b'', Some ''c'', Some ''b1''],
     items = []\<rparr>"

definition build_abc :: "memory option" where
  "build_abc =
    (case new_chain empty_memory None ''a'' [(0, ''b''), (1, ''c'')] of
       None \<Rightarrow> None
     | Some (m, xs) \<Rightarrow>
         (case tree_node_new True True m (Some (xs ! 1)) ''b1'' of
            Inr (b1, m1) \<Rightarrow> Some m1
          | Inl e \<Rightarrow> None))"

definition abc_forest :: "tree list" where
  "abc_forest = [Node 0 [], Node 1 [Node 3 []], Node 2 []]"

text \<open>
  A run of \<^verbatim>\<open>tree_view_update\<close> on the memory and view that an earlier run left,
  and what a run shows: the returned code, the texts of the menu's items and
  their user pointers.
\<close>

type_synonym update_result = "(fault + werror \<times> memory \<times> tree_view) option"

definition then_update :: "update_result \<Rightarrow> alloc_env \<Rightarrow> addr option \<Rightarrow> update_result" where
  "then_update r env list =
    (case r of
       Some (Inr (w, m, view)) \<Rightarrow> tree_view_update env m view list
     | _ \<Rightarrow> r)"

definition shown :: "update_result \<Rightarrow> (werror \<times> string option list \<times> addr option list) option" where
  "shown r =
    (case r of
       Some (Inr (w, m, view)) \<Rightarrow> Some (w, displayed m view, back_refs m view)
     | _ \<Rightarrow> None)"

definition label_in :: "update_result \<Rightarrow> addr \<Rightarrow> string option option" where
  "label_in r a =
    (case r of
       Some (Inr (w, m, view)) \<Rightarrow> Some (label_text m a)
     | _ \<Rightarrow> None)"

text \<open>
  In what a run leaves: the \<^verbatim>\<open>label\<close> field of a node (the outer \<open>None\<close> when the run
  did not return, the middle one when the node is not allocated, the inner one
  when the field is null), and the string at an address (\<open>Some None\<close> when it is
  not allocated).
\<close>

definition label_field_in :: "update_result \<Rightarrow> addr \<Rightarrow> addr option option option" where
  "label_field_in r a =
    (case r of
       Some (Inr (w, m, view)) \<Rightarrow> Some (map_option label (lookup (nodes m) a))
     | _ \<Rightarrow> None)"

definition string_in :: "update_result \<Rightarrow> addr \<Rightarrow> string option option" where
  "string_in r l =
    (case r of
       Some (Inr (w, m, view)) \<Rightarrow> Some (lookup (strs m) l)
     | _ \<Rightarrow> None)"

text \<open>
  The view on \<open>abc_memory\<close> as \<^verbatim>\<open>tree_view_new\<close> sets it up before its call of
  \<^verbatim>\<open>tree_view_update\<close>, with the memory then: the placeholder item is item 0, its
  text is string 4.
\<close>

definition abc_view :: tree_view where
  "abc_view = \<lparr>root = Some 0, current_items = Some [Some 0, None],
               menu_items = [Some 0, None], menu_posted = False\<rparr>"

definition abc_start :: memory where
  "abc_start =
    abc_memory\<lparr>strs := strs abc_memory @ [Some ''12345''],
               items := [Some \<lparr>item_name = Some 4, item_description = Some 4,
                               item_userptr = None\<rparr>]\<rparr>"

text \<open>The update on the root chain, and then the update on the child chain of \<^verbatim>\<open>"b"\<close>.\<close>

definition abc_first :: update_result where
  "abc_first = tree_view_update all_ok abc_start abc_view (Some 0)"

definition abc_second :: update_result where
  "abc_second = then_update abc_first all_ok (Some 3)"

text \<open>The update on the root chain when \<^verbatim>\<open>new_item\<close> fails for the second node.\<close>

definition abc_item_fails :: update_result where
  "abc_item_fails =
    tree_view_update (all_ok\<lparr>item_ok := (\<lambda>i. i \<noteq> 1)\<rparr>) abc_start abc_view (Some 0)"

text \<open>
  A view is made on the single node of \<open>one_node\<close>, which has no child; then a
  child is created under that node; then the view is updated on the same chain.
\<close>

definition refresh_after_child :: update_result where
  "refresh_after_child =
    (case tree_view_new True True True all_ok one_node (Some 0) of
       Some (Inr (Some view, m)) \<Rightarrow>
         (case tree_node_new True True m (Some 0) ''kid'' of
            Inr (kid, m1) \<Rightarrow> tree_view_update all_ok m1 view (Some 0)
          | Inl e \<Rightarrow> Some (Inl e))
     | _ \<Rightarrow> None)"

text \<open>
  The root chain \<^verbatim>\<open>"x"\<close>, \<^verbatim>\<open>"y"\<close> (addresses 0, 1), each with one child (addresses 2,
  3); the memory once a view is set up on it; and an update on the root chain
  in which the label of the second node cannot be allocated.
\<close>

definition two_parents :: memory where
  "two_parents =
    \<lparr>nodes =
       [Some (zero_node\<lparr>name := Some 0, child_head := Some 2, next_node := Some 1\<rparr>),
        Some (zero_node\<lparr>name := Some 1, child_head := Some 3, previous := Some 0\<rparr>),
        Some (zero_node\<lparr>name := Some 2, parent := Some 0\<rparr>),
        Some (zero_node\<lparr>name := Some 3, parent := Some 1\<rparr>)],
     strs = [Some ''x'', Some ''y'', Some ''x1'', Some ''y1''],
     items = []\<rparr>"

definition build_two_parents :: "memory option" where
  "build_two_parents =
    (case new_chain empty_memory None ''x'' [(0, ''y'')] of
       None \<Rightarrow> None
     | Some (m, xs) \<Rightarrow>
         (case tree_node_new True True m (Some (xs ! 0)) ''x1'' of
            Inr (x1, m1) \<Rightarrow>
              (case tree_node_new True True m1 (Some (xs ! 1)) ''y1'' of
                 Inr (y1, m2) \<Rightarrow> Some m2
               | Inl e \<Rightarrow> None)
          | Inl e \<Rightarrow> None))"

definition two_start :: memory where
  "two_start =
    two_parents\<lparr>strs := strs two_parents @ [Some ''12345''],
                items := [Some \<lparr>item_name = Some 4, item_description = Some 4,
                                item_userptr = None\<rparr>]\<rparr>"

definition two_label_fails :: update_result where
  "two_label_fails =
    tree_view_update (all_ok\<lparr>label_ok := (\<lambda>i. i = 0)\<rparr>) two_start abc_view (Some 0)"

text \<open>The returned code of a run, and whether \<open>label_inv\<close> holds in what it leaves.\<close>

definition inv_in :: "update_result \<Rightarrow> (werror \<times> bool) option" where
  "inv_in r =
    (case r of
       Some (Inr (w, m, view)) \<Rightarrow> Some (w, label_inv m view)
     | _ \<Rightarrow> None)"

text \<open>The memory and the view that the update on the root chain of \<open>abc_start\<close> leaves.\<close>

definition abc_posted :: memory where
  "abc_posted =
    \<lparr>nodes =
       [Some (zero_node\<lparr>name := Some 0, next_node := Some 1\<rparr>),
        Some (zero_node\<lparr>name := Some 1, label := Some 5, child_head := Some 3,
                         previous := Some 0, next_node := Some 2\<rparr>),
        Some (zero_node\<lparr>name := Some 2, previous := Some 1\<rparr>),
        Some (zero_node\<lparr>name := Some 3, parent := Some 1\<rparr>)],
     strs = [Some ''a'', Some ''b'', Some ''c'', Some ''b1'', Some ''12345'', Some ''+b''],
     items =
       [None,
        Some \<lparr>item_name = Some 0, item_description = Some 0, item_userptr = Some 0\<rparr>,
        Some \<lparr>item_name = Some 5, item_description = Some 1, item_userptr = Some 1\<rparr>,
        Some \<lparr>item_name = Some 2, item_description = Some 2, item_userptr = Some 2\<rparr>]\<rparr>"

definition abc_posted_view :: tree_view where
  "abc_posted_view = \<lparr>root = Some 0, current_items = Some [Some 1, Some 2, Some 3, None],
                      menu_items = [Some 1, Some 2, Some 3, None], menu_posted = False\<rparr>"

declare walk_previous.simps [code]
declare tree_node_free_recursive.simps [code]
declare count_items.simps [code]
declare build_items.simps [code]
declare pop_all.simps [code]

section \<open>The store\<close>

lemma lookup_Some_less: "lookup s a = Some v \<Longrightarrow> a < length s"
  by (simp add: lookup_def split: if_splits)

lemma lookup_modify:
  "lookup (modify s a f) b = (if b = a then map_option f (lookup s a) else lookup s b)"
  by (auto simp: modify_def lookup_def split: option.splits)

lemma lookup_release:
  "lookup (release s a) b = (if b = a then None else lookup s b)"
  by (auto simp: release_def lookup_def)

lemma lookup_alloc:
  "alloc s v = (a, s') \<Longrightarrow> lookup s' b = (if b = a then Some v else lookup s b)"
  by (auto simp: alloc_def lookup_def nth_append)

lemma alloc_fresh: "alloc s v = (a, s') \<Longrightarrow> lookup s a = None"
  by (auto simp: alloc_def lookup_def)

lemma length_modify [simp]: "length (modify s a f) = length s"
  by (simp add: modify_def split: option.splits)

lemma length_release [simp]: "length (release s a) = length s"
  by (simp add: release_def)

section \<open>Popping a node of a chain\<close>

lemma pop_None: "tree_node_pop ns None = Inr (None, ns, None)"
  by (simp add: tree_node_pop_def)

lemma pop_Some:
  assumes a: "lookup ns a = Some nd"
    and pa: "previous nd \<noteq> Some a" and na: "next_node nd \<noteq> Some a"
    and pv: "\<And>p. previous nd = Some p \<Longrightarrow> lookup ns p \<noteq> None"
    and nv: "\<And>x. next_node nd = Some x \<Longrightarrow> lookup ns x \<noteq> None"
  shows "\<exists>ns'. tree_node_pop ns (Some a) =
            Inr (Some a, ns', if previous nd = None then next_node nd else previous nd) \<and>
          length ns' = length ns \<and>
          (\<forall>b. lookup ns' b =
             (if b = a then Some (nd\<lparr>next_node := None, previous := None\<rparr>)
              else map_option
                     (\<lambda>x. (if next_node nd = Some b then x\<lparr>previous := previous nd\<rparr> else x))
                     (map_option (\<lambda>x. if previous nd = Some b then x\<lparr>next_node := next_node nd\<rparr> else x)
                        (lookup ns b))))"
proof (cases "previous nd")
  case None
  note P = this
  show ?thesis
  proof (cases "next_node nd")
    case None
    with P a show ?thesis
      by (auto simp: tree_node_pop_def lookup_modify option.map_comp o_def option.map_ident)
  next
    case (Some x)
    with P a na nv[OF Some] show ?thesis
      by (auto simp: tree_node_pop_def lookup_modify option.map_comp o_def option.map_ident split: option.splits)
  qed
next
  case (Some p)
  note P = this
  show ?thesis
  proof (cases "next_node nd")
    case None
    with P a pa pv[OF P] show ?thesis
      by (auto simp: tree_node_pop_def lookup_modify option.map_comp o_def option.map_ident split: option.splits)
  next
    case (Some x)
    with P a na pa nv[OF Some] pv[OF P] show ?thesis
      by (auto simp: tree_node_pop_def lookup_modify option.map_comp o_def option.map_ident split: option.splits)
  qed
qed

lemma dll_cong:
  "(\<And>x. x \<in> set xs \<Longrightarrow> lookup ns' x = lookup ns x) \<Longrightarrow> dll ns' p xs n = dll ns p xs n"
  by (induction xs arbitrary: p) (auto split: option.splits)

lemma dll_append:
  "dll ns p (xs @ ys) n = (dll ns p xs (first_or n ys) \<and> dll ns (last_or p xs) ys n)"
proof (induction xs arbitrary: p)
  case Nil
  then show ?case by (simp add: last_or_def)
next
  case (Cons x xs)
  have f: "first_or n (xs @ ys) = first_or (first_or n ys) xs"
    by (cases xs) auto
  have l: "last_or p (x # xs) = last_or (Some x) xs"
    by (auto simp: last_or_def)
  show ?case
    by (auto simp: Cons.IH f l split: option.splits)
qed

lemma dll_valid: "dll ns p xs n \<Longrightarrow> x \<in> set xs \<Longrightarrow> lookup ns x \<noteq> None"
  by (induction xs arbitrary: p) (auto split: option.splits)

lemma dll_set_exit:
  "dll ns p xs n \<Longrightarrow> distinct xs \<Longrightarrow>
   (\<And>b. b \<in> set xs \<Longrightarrow> lookup ns' b =
      (if b = last xs then map_option (\<lambda>x. x\<lparr>next_node := n'\<rparr>) (lookup ns b) else lookup ns b)) \<Longrightarrow>
   dll ns' p xs n'"
proof (induction xs arbitrary: p)
  case Nil
  then show ?case by simp
next
  case (Cons x xs)
  show ?case
  proof (cases xs)
    case Nil
    with Cons.prems show ?thesis by (auto split: option.splits)
  next
    case (Cons y ys)
    with Cons.prems have xl: "x \<noteq> last (x # xs)" by auto
    have tl: "dll ns' (Some x) xs n'"
    proof (rule Cons.IH)
      show "dll ns (Some x) xs n" using Cons.prems(1) by (auto split: option.splits)
      show "distinct xs" using Cons.prems(2) by simp
      fix b assume "b \<in> set xs"
      then show "lookup ns' b = (if b = last xs then map_option (\<lambda>x. x\<lparr>next_node := n'\<rparr>) (lookup ns b) else lookup ns b)"
        using Cons.prems(3)[of b] Cons by auto
    qed
    have "lookup ns' x = lookup ns x" using Cons.prems(3)[of x] xl by simp
    with Cons.prems(1) tl Cons show ?thesis by (auto split: option.splits)
  qed
qed

lemma dll_set_entry:
  "dll ns p xs n \<Longrightarrow> distinct xs \<Longrightarrow>
   (\<And>b. b \<in> set xs \<Longrightarrow> lookup ns' b =
      (if b = hd xs then map_option (\<lambda>x. x\<lparr>previous := p'\<rparr>) (lookup ns b) else lookup ns b)) \<Longrightarrow>
   dll ns' p' xs n"
proof (cases xs)
  case Nil
  then show ?thesis by simp
next
  case (Cons x ys)
  assume d: "dll ns p xs n" and dist: "distinct xs"
    and eq: "\<And>b. b \<in> set xs \<Longrightarrow> lookup ns' b =
      (if b = hd xs then map_option (\<lambda>x. x\<lparr>previous := p'\<rparr>) (lookup ns b) else lookup ns b)"
  have "dll ns' (Some x) ys n = dll ns (Some x) ys n"
    by (rule dll_cong) (use eq dist Cons in auto)
  with d eq[of x] Cons show ?thesis by (auto split: option.splits)
qed

lemma dll_mid:
  "dll ns None (pre @ a # post) None \<Longrightarrow>
   \<exists>nd. lookup ns a = Some nd \<and> previous nd = last_or None pre \<and> next_node nd = first_or None post"
  by (auto simp: dll_append split: option.splits)

lemma pop_dll:
  assumes d: "dll ns None (pre @ a # post) None" and dist: "distinct (pre @ a # post)"
  shows "\<exists>ns'. tree_node_pop ns (Some a) = Inr (Some a, ns', last_or (first_or None post) pre) \<and>
           dll ns' None (pre @ post) None \<and> detached ns' a \<and>
           (\<forall>b. b \<notin> set (pre @ a # post) \<longrightarrow> lookup ns' b = lookup ns b)"
proof -
  from dll_mid[OF d] obtain nd where nd: "lookup ns a = Some nd"
    "previous nd = last_or None pre" "next_node nd = first_or None post" by blast
  have pa: "previous nd \<noteq> Some a" using nd(2) dist by (auto simp: last_or_def)
  have na: "next_node nd \<noteq> Some a" using nd(3) dist by (cases post) auto
  have pv: "\<And>p. previous nd = Some p \<Longrightarrow> lookup ns p \<noteq> None"
    using nd(2) dll_valid[OF d] by (auto simp: last_or_def split: if_splits)
  have nv: "\<And>x. next_node nd = Some x \<Longrightarrow> lookup ns x \<noteq> None"
    using nd(3) dll_valid[OF d] by (cases post) auto
  from pop_Some[OF nd(1) pa na pv nv] obtain ns' where
    r: "tree_node_pop ns (Some a) = Inr (Some a, ns', if previous nd = None then next_node nd else previous nd)"
    and lk: "\<And>b. lookup ns' b =
             (if b = a then Some (nd\<lparr>next_node := None, previous := None\<rparr>)
              else map_option
                     (\<lambda>x. (if next_node nd = Some b then x\<lparr>previous := previous nd\<rparr> else x))
                     (map_option (\<lambda>x. if previous nd = Some b then x\<lparr>next_node := next_node nd\<rparr> else x)
                        (lookup ns b)))"
    by blast
  have ref: "(if previous nd = None then next_node nd else previous nd) = last_or (first_or None post) pre"
    using nd(2,3) by (auto simp: last_or_def)
  have d1: "dll ns None pre (Some a)" and d2: "dll ns (Some a) post None"
    using d by (auto simp: dll_append last_or_def split: option.splits)
  have pre': "dll ns' None pre (first_or None post)"
  proof (rule dll_set_exit[OF d1])
    show "distinct pre" using dist by simp
    fix b assume b: "b \<in> set pre"
    then have "b \<noteq> a" "next_node nd \<noteq> Some b" using dist nd(3) by (cases post; auto)+
    moreover have "previous nd = Some b \<longleftrightarrow> b = last pre"
      using nd(2) b by (auto simp: last_or_def)
    ultimately show "lookup ns' b =
      (if b = last pre then map_option (\<lambda>x. x\<lparr>next_node := first_or None post\<rparr>) (lookup ns b) else lookup ns b)"
      using lk[of b] nd(3) by (auto simp: option.map_ident)
  qed
  have post': "dll ns' (last_or None pre) post None"
  proof (rule dll_set_entry[OF d2])
    show "distinct post" using dist by simp
    fix b assume b: "b \<in> set post"
    have "previous nd = Some b \<Longrightarrow> b \<in> set pre"
      using nd(2) by (auto simp: last_or_def split: if_splits)
    with b have "b \<noteq> a" "previous nd \<noteq> Some b"
      using dist by auto
    moreover have "next_node nd = Some b \<longleftrightarrow> b = hd post"
      using nd(3) b by (cases post) auto
    ultimately show "lookup ns' b =
      (if b = hd post then map_option (\<lambda>x. x\<lparr>previous := last_or None pre\<rparr>) (lookup ns b) else lookup ns b)"
      using lk[of b] nd(2) by (auto simp: option.map_ident)
  qed
  have frame: "\<forall>b. b \<notin> set (pre @ a # post) \<longrightarrow> lookup ns' b = lookup ns b"
  proof (intro allI impI)
    fix b assume b: "b \<notin> set (pre @ a # post)"
    then have "previous nd \<noteq> Some b" "next_node nd \<noteq> Some b" "b \<noteq> a"
      using nd(2,3) by (cases post; auto simp: last_or_def split: if_splits)+
    then show "lookup ns' b = lookup ns b" using lk[of b] by (simp add: option.map_ident)
  qed
  have "detached ns' a" using lk[of a] by (simp add: detached_def)
  with r ref pre' post' frame show ?thesis by (auto simp: dll_append)
qed

lemma detached_cong: "lookup ns' a = lookup ns a \<Longrightarrow> detached ns' a = detached ns a"
  by (simp add: detached_def)

lemma pop_all_step:
  "tree_node_pop ns (Some a) = Inr (Some a, ns1, r) \<Longrightarrow>
   pop_all ns (Some a) acc = pop_all ns1 r (acc @ [a])"
  by (subst pop_all.simps) simp

lemma pop_all_None: "pop_all ns None acc = Some (Inr (acc, ns))"
  by (subst pop_all.simps) (simp add: pop_None)

lemma pop_all_chain:
  "distinct (pre @ a # post) \<Longrightarrow> dll ns None (pre @ a # post) None \<Longrightarrow>
   \<exists>ns'. pop_all ns (Some a) acc = Some (Inr (acc @ a # rev pre @ post, ns')) \<and>
         (\<forall>x \<in> set (pre @ a # post). detached ns' x) \<and>
         (\<forall>b. b \<notin> set (pre @ a # post) \<longrightarrow> lookup ns' b = lookup ns b)"
proof (induction "length pre + length post" arbitrary: pre post a ns acc)
  case 0
  then have e: "pre = []" "post = []" by auto
  from pop_dll[OF "0.prems"(2,1)] obtain ns1 where
    p: "tree_node_pop ns (Some a) = Inr (Some a, ns1, last_or (first_or None post) pre)"
    and det: "detached ns1 a"
    and fr: "\<forall>b. b \<notin> set (pre @ a # post) \<longrightarrow> lookup ns1 b = lookup ns b" by blast
  have "pop_all ns (Some a) acc = Some (Inr (acc @ [a], ns1))"
    using pop_all_step[OF p] by (simp add: e last_or_def pop_all_None)
  with det fr e show ?case by auto
next
  case (Suc k)
  from pop_dll[OF Suc.prems(2,1)] obtain ns1 where
    p: "tree_node_pop ns (Some a) = Inr (Some a, ns1, last_or (first_or None post) pre)"
    and d1: "dll ns1 None (pre @ post) None"
    and det: "detached ns1 a"
    and fr: "\<forall>b. b \<notin> set (pre @ a # post) \<longrightarrow> lookup ns1 b = lookup ns b" by blast
  show ?case
  proof (cases pre rule: rev_cases)
    case Nil
    with Suc.hyps(2) obtain n post' where post: "post = n # post'" by (cases post) auto
    have k: "k = length ([]::addr list) + length post'" using Suc.hyps(2) Nil post by simp
    have dist': "distinct ([] @ n # post')" using Suc.prems(1) post by simp
    have d': "dll ns1 None ([] @ n # post') None" using d1 Nil post by simp
    from Suc.hyps(1)[OF k dist' d', of "acc @ [a]"] obtain ns' where
      r: "pop_all ns1 (Some n) (acc @ [a]) = Some (Inr ((acc @ [a]) @ n # rev [] @ post', ns'))"
      and det': "\<forall>x \<in> set ([] @ n # post'). detached ns' x"
      and fr': "\<forall>b. b \<notin> set ([] @ n # post') \<longrightarrow> lookup ns' b = lookup ns1 b" by blast
    have a: "a \<notin> set ([] @ n # post')" using Suc.prems(1) post by auto
    have "detached ns' a" using fr' a det detached_cong[of ns' a ns1] by blast
    moreover have "pop_all ns (Some a) acc = Some (Inr (acc @ a # rev pre @ post, ns'))"
      using pop_all_step[OF p] r Nil post by (simp add: last_or_def)
    moreover have "\<forall>b. b \<notin> set (pre @ a # post) \<longrightarrow> lookup ns' b = lookup ns b"
      using fr fr' Nil post by auto
    ultimately show ?thesis using det' Nil post by auto
  next
    case (snoc pre' q)
    have k: "k = length pre' + length post" using Suc.hyps(2) snoc by simp
    have dist': "distinct (pre' @ q # post)" using Suc.prems(1) snoc by auto
    have d': "dll ns1 None (pre' @ q # post) None" using d1 snoc by simp
    from Suc.hyps(1)[OF k dist' d', of "acc @ [a]"] obtain ns' where
      r: "pop_all ns1 (Some q) (acc @ [a]) = Some (Inr ((acc @ [a]) @ q # rev pre' @ post, ns'))"
      and det': "\<forall>x \<in> set (pre' @ q # post). detached ns' x"
      and fr': "\<forall>b. b \<notin> set (pre' @ q # post) \<longrightarrow> lookup ns' b = lookup ns1 b" by blast
    have a: "a \<notin> set (pre' @ q # post)" using Suc.prems(1) snoc by auto
    have "detached ns' a" using fr' a det detached_cong[of ns' a ns1] by blast
    moreover have "pop_all ns (Some a) acc = Some (Inr (acc @ a # rev pre @ post, ns'))"
      using pop_all_step[OF p] r snoc by (simp add: last_or_def)
    moreover have "\<forall>b. b \<notin> set (pre @ a # post) \<longrightarrow> lookup ns' b = lookup ns b"
      using fr fr' snoc by auto
    ultimately show ?thesis using det' snoc by auto
  qed
qed

text \<open>
  C5. \<^verbatim>\<open>tree_node_pop\<close> on a null reference returns null and changes neither the
  store nor the reference. On a reference to the node \<open>a\<close> of a sibling chain
  \<open>pre @ a # post\<close> it returns \<open>a\<close>, leaves the chain \<open>pre @ post\<close> (the former
  neighbours of \<open>a\<close> linked to each other), leaves \<open>a\<close> without neighbours, and
  moves the reference to the node before \<open>a\<close> if there is one, else to the node
  after it; repeating the pop until it returns null pops every node of the
  chain: \<open>a\<close>, then the nodes before it backwards, then the nodes after it.
\<close>

theorem tree_node_pop_chain:
  "tree_node_pop ns None = Inr (None, ns, None) \<and>
   (distinct (pre @ a # post) \<and> dll ns None (pre @ a # post) None \<longrightarrow>
      (\<exists>ns1. tree_node_pop ns (Some a) =
               Inr (Some a, ns1, if pre = [] then first_or None post else Some (last pre)) \<and>
             dll ns1 None (pre @ post) None \<and> detached ns1 a \<and>
             (\<forall>b. b \<notin> set (pre @ a # post) \<longrightarrow> lookup ns1 b = lookup ns b)) \<and>
      (\<exists>ns2. pop_all ns (Some a) [] = Some (Inr (a # rev pre @ post, ns2)) \<and>
             (\<forall>x \<in> set (pre @ a # post). detached ns2 x)))"
proof (intro conjI impI)
  show "tree_node_pop ns None = Inr (None, ns, None)" by (rule pop_None)
next
  assume h: "distinct (pre @ a # post) \<and> dll ns None (pre @ a # post) None"
  from pop_dll[of ns pre a post] h
  show "\<exists>ns1. tree_node_pop ns (Some a) =
               Inr (Some a, ns1, if pre = [] then first_or None post else Some (last pre)) \<and>
             dll ns1 None (pre @ post) None \<and> detached ns1 a \<and>
             (\<forall>b. b \<notin> set (pre @ a # post) \<longrightarrow> lookup ns1 b = lookup ns b)"
    by (simp add: last_or_def)
next
  assume h: "distinct (pre @ a # post) \<and> dll ns None (pre @ a # post) None"
  from pop_all_chain[of pre a post ns "[]"] h
  show "\<exists>ns2. pop_all ns (Some a) [] = Some (Inr (a # rev pre @ post, ns2)) \<and>
             (\<forall>x \<in> set (pre @ a # post). detached ns2 x)"
    by auto
qed


theorem tree_node_pop_chain_witness:
  "distinct ([0] @ 1 # [2::nat]) \<and> dll chain3 None ([0] @ 1 # [2]) None \<and>
   (\<exists>ns1. tree_node_pop chain3 (Some 1) = Inr (Some 1, ns1, Some 0) \<and>
          dll ns1 None [0, 2] None \<and> detached ns1 1) \<and>
   (\<exists>ns2. pop_all chain3 (Some 1) [] = Some (Inr ([1, 0, 2], ns2)) \<and>
          detached ns2 0 \<and> detached ns2 1 \<and> detached ns2 2)"
proof -
  have h: "distinct ([0] @ 1 # [2::nat]) \<and> dll chain3 None ([0] @ 1 # [2]) None"
    by (simp add: chain3_def lookup_def zero_node_def)
  show ?thesis
    using h tree_node_pop_chain[of chain3 "[0]" 1 "[2]"] by auto
qed

section \<open>Creating a node\<close>

lemma fst_alloc: "fst (alloc s v) = length s"
  by (simp add: alloc_def)

lemma lookup_snd_alloc:
  "lookup (snd (alloc s v)) b = (if b = length s then Some v else lookup s b)"
  by (auto simp: alloc_def lookup_def nth_append)

lemma length_snd_alloc: "length (snd (alloc s v)) = Suc (length s)"
  by (simp add: alloc_def)

lemma lookup_length: "lookup s (length s) = None"
  by (simp add: lookup_def)

lemma lookup_Some_neq_length: "lookup s a = Some v \<Longrightarrow> a \<noteq> length s"
  by (auto simp: lookup_def)

lemma tree_node_new_fails:
  assumes "\<not> node_ok \<or> \<not> name_ok"
  shows "\<exists>m'. tree_node_new node_ok name_ok m par nm = Inr (None, m') \<and>
              strs m' = strs m \<and> items m' = items m \<and>
              (\<forall>a nd. lookup (nodes m) a = Some nd \<longrightarrow> lookup (nodes m') a = Some nd)"
proof (cases node_ok)
  case False
  then show ?thesis by (simp add: tree_node_new_def)
next
  case True
  with assms have "\<not> name_ok" by simp
  with True show ?thesis
    by (auto simp: tree_node_new_def case_prod_beta lookup_snd_alloc dest: lookup_Some_neq_length)
qed

lemma tree_node_new_child_head:
  assumes r: "tree_node_new node_ok name_ok m par nm = Inr (r, m')"
    and p: "lookup (nodes m) p = Some pn" and p': "lookup (nodes m') p = Some pn'"
    and ch: "child_head pn' \<noteq> child_head pn"
  shows "node_ok \<and> name_ok \<and> par = Some p \<and> child_head pn = None \<and> r \<noteq> None \<and> child_head pn' = r"
proof -
  have pl: "p \<noteq> length (nodes m)" using p by (rule lookup_Some_neq_length)
  have ok: "node_ok \<and> name_ok"
  proof (rule ccontr)
    assume "\<not> (node_ok \<and> name_ok)"
    then have "\<not> node_ok \<or> \<not> name_ok" by simp
    from tree_node_new_fails[OF this, of m par nm] r p p' ch show False by auto
  qed
  show ?thesis
  proof (cases par)
    case None
    with r ok p p' ch pl show ?thesis
      by (auto simp: tree_node_new_def case_prod_beta Let_def fst_alloc lookup_snd_alloc lookup_modify
               split: if_splits)
  next
    case (Some q)
    with r ok p p' ch pl show ?thesis
      by (auto simp: tree_node_new_def case_prod_beta Let_def fst_alloc lookup_snd_alloc lookup_modify
               split: if_splits option.splits)
  qed
qed

text \<open>
  C10. When \<^verbatim>\<open>tree_node_new\<close> cannot allocate the node or the copy of the name, it
  returns null and every node that existed before, the parent among them, is
  as it was. Whenever a call changes the \<^verbatim>\<open>child_head\<close> of a node \<open>p\<close>, both
  allocations succeeded, \<open>p\<close> is the parent given to the call, its \<^verbatim>\<open>child_head\<close>
  was null before and is the new node after.
\<close>

theorem tree_node_new_parent_untouched:
  "(\<not> node_ok \<or> \<not> name_ok \<longrightarrow>
      (\<exists>m'. tree_node_new node_ok name_ok m par nm = Inr (None, m') \<and>
            strs m' = strs m \<and> items m' = items m \<and>
            (\<forall>a nd. lookup (nodes m) a = Some nd \<longrightarrow> lookup (nodes m') a = Some nd))) \<and>
   (\<forall>r m' p pn pn'.
      tree_node_new node_ok name_ok m par nm = Inr (r, m') \<and>
      lookup (nodes m) p = Some pn \<and> lookup (nodes m') p = Some pn' \<and>
      child_head pn' \<noteq> child_head pn \<longrightarrow>
      node_ok \<and> name_ok \<and> par = Some p \<and> child_head pn = None \<and> r \<noteq> None \<and> child_head pn' = r)"
  using tree_node_new_fails[of node_ok name_ok m par nm]
    tree_node_new_child_head[of node_ok name_ok m par nm]
  by blast

theorem tree_node_new_parent_untouched_witness:
  "(\<exists>m'. tree_node_new True False one_node (Some 0) ''x'' = Inr (None, m') \<and>
         lookup (nodes m') 0 = lookup (nodes one_node) 0) \<and>
   (\<exists>m' pn'. tree_node_new True True one_node (Some 0) ''x'' = Inr (Some 1, m') \<and>
         lookup (nodes m') 0 = Some pn' \<and> child_head pn' = Some 1)"
  using tree_node_new_parent_untouched[of True False one_node "Some 0" "''x''"]
  by (simp add: tree_node_new_def one_node_def alloc_def lookup_def modify_def zero_node_def)

section \<open>A popped head and the parent's first child\<close>

lemma build_family: "build_family = Some family"
  by (simp add: build_family_def family_def one_node_def tree_node_new_def tree_node_append_def
      alloc_def lookup_def modify_def zero_node_def)

text \<open>
  C2, on the code. The parent \<open>0\<close> has the children \<open>1\<close> and \<open>2\<close>; a pop through a
  reference to the head \<open>1\<close> leaves the chain \<open>[2]\<close> and the node \<open>1\<close> without
  links, and the parent's \<^verbatim>\<open>child_head\<close> still is \<open>1\<close>.
\<close>

theorem pop_keeps_child_head:
  "tree_node_pop (nodes family) (Some 1) = Inr (Some 1, family_popped, Some 2) \<and>
   dll family_popped None [2] None \<and> detached family_popped 1 \<and>
   map_option child_head (lookup family_popped 0) = Some (Some 1)"
  by (simp add: family_def family_popped_def tree_node_pop_def detached_def
      lookup_def modify_def zero_node_def)

text \<open>
  C4, on the code. In the same memory the pop returns the head \<open>1\<close> and moves
  the reference to \<open>2\<close>, and \<^verbatim>\<open>tree_node_first\<close> of that reference returns \<open>1\<close>.
\<close>

theorem first_returns_popped:
  "pop_then_first (nodes family) (Some 1) = Some (Some 1, Some 2, Some (Inr (Some 1)))"
  by (simp add: pop_then_first_def family_def tree_node_pop_def tree_node_first_def
      lookup_def modify_def zero_node_def)

section \<open>Appending, and the first node of a chain\<close>

lemma walk_previous_dll:
  "dll ns None (pre @ [x]) n \<Longrightarrow> walk_previous ns (Some x) = Some (Inr (Some (hd (pre @ [x]))))"
proof (induction pre arbitrary: x n rule: rev_induct)
  case Nil
  then show ?case by (subst walk_previous.simps) (auto split: option.splits)
next
  case (snoc q pre)
  from snoc.prems have d: "dll ns None (pre @ [q]) (Some x)"
    and x: "\<exists>nd. lookup ns x = Some nd \<and> previous nd = Some q"
    by (auto simp: dll_append last_or_def split: option.splits)
  from snoc.IH[OF d] x show ?case
    by (subst walk_previous.simps) (auto simp: hd_append)
qed

lemma first_sibling_chain:
  assumes sc: "sibling_chain ns pp xs" and x: "x \<in> set xs"
  shows "tree_node_first ns (Some x) = Some (Inr (Some (hd xs)))"
proof -
  from x obtain pre post where xs: "xs = pre @ x # post" by (auto simp: in_set_conv_decomp)
  from sc have d: "dll ns None xs None" by (simp add: sibling_chain_def)
  from sc x obtain nd where nd: "lookup ns x = Some nd" "parent nd = pp"
    by (auto simp: sibling_chain_def list_all_iff)
  show ?thesis
  proof (cases pp)
    case None
    from d xs have "dll ns None (pre @ [x]) (first_or None post)"
      by (auto simp: dll_append last_or_def split: option.splits)
    from walk_previous_dll[OF this] nd None xs show ?thesis
      by (simp add: tree_node_first_def hd_append)
  next
    case (Some p)
    with sc obtain pn where "lookup ns p = Some pn" "child_head pn = Some (hd xs)"
      by (auto simp: sibling_chain_def)
    with nd Some show ?thesis by (simp add: tree_node_first_def)
  qed
qed

lemma append_lookup:
  assumes l: "lookup ns l = Some ln" and r: "lookup ns r = Some rn"
    and lr: "l \<noteq> r" and nl: "next_node ln \<noteq> Some l" and nr: "next_node ln \<noteq> Some r"
    and nv: "\<And>x. next_node ln = Some x \<Longrightarrow> lookup ns x \<noteq> None"
    and rd: "next_node rn = None"
  shows "\<exists>ns'. tree_node_append ns (Some l) (Some r) = Inr ns' \<and>
           (\<forall>b. lookup ns' b =
              (if b = l then Some (ln\<lparr>next_node := Some r\<rparr>)
               else if b = r then Some (rn\<lparr>next_node := next_node ln, previous := Some l\<rparr>)
               else if next_node ln = Some b then map_option (\<lambda>x. x\<lparr>previous := Some r\<rparr>) (lookup ns b)
               else lookup ns b))"
proof (cases "next_node ln")
  case None
  with l r lr rd show ?thesis
    by (auto simp: tree_node_append_def lookup_modify)
next
  case (Some x)
  with l r lr nl nr nv[OF Some] show ?thesis
    by (auto simp: tree_node_append_def lookup_modify Let_def split: option.splits)
qed

lemma append_sibling_chain:
  assumes sc: "sibling_chain ns pp xs" and k: "k < length xs"
    and r: "lookup ns r = Some rn" and rx: "r \<notin> set xs"
    and rd: "previous rn = None" "next_node rn = None" and rp: "parent rn = pp"
    and rpp: "pp \<noteq> Some r"
  shows "\<exists>ns'. tree_node_append ns (Some (xs ! k)) (Some r) = Inr ns' \<and>
           sibling_chain ns' pp (take (Suc k) xs @ r # drop (Suc k) xs)"
proof -
  define pre where "pre = take k xs"
  define post where "post = drop (Suc k) xs"
  define l where "l = xs ! k"
  have xs: "xs = pre @ l # post"
    using k by (simp add: pre_def post_def l_def id_take_nth_drop)
  have new: "take (Suc k) xs @ r # drop (Suc k) xs = pre @ l # r # post"
    using k by (simp add: pre_def post_def l_def take_Suc_conv_app_nth)
  from sc have d: "dll ns None (pre @ l # post) None" and dist: "distinct (pre @ l # post)"
    by (simp_all add: sibling_chain_def xs)
  from dll_mid[OF d] obtain ln where ln: "lookup ns l = Some ln"
    "previous ln = last_or None pre" "next_node ln = first_or None post" by blast
  have lr: "l \<noteq> r" using rx xs by auto
  have nl: "next_node ln \<noteq> Some l" using ln(3) dist by (cases post) auto
  have nr: "next_node ln \<noteq> Some r" using ln(3) rx xs by (cases post) auto
  have nv: "\<And>x. next_node ln = Some x \<Longrightarrow> lookup ns x \<noteq> None"
    using ln(3) dll_valid[OF d] by (cases post) auto
  from append_lookup[OF ln(1) r lr nl nr nv rd(2)] obtain ns' where
    ap: "tree_node_append ns (Some l) (Some r) = Inr ns'"
    and lk: "\<And>b. lookup ns' b =
              (if b = l then Some (ln\<lparr>next_node := Some r\<rparr>)
               else if b = r then Some (rn\<lparr>next_node := next_node ln, previous := Some l\<rparr>)
               else if next_node ln = Some b then map_option (\<lambda>x. x\<lparr>previous := Some r\<rparr>) (lookup ns b)
               else lookup ns b)"
    by blast
  have d1: "dll ns None pre (Some l)" and d2: "dll ns (Some l) post None"
    using d by (auto simp: dll_append last_or_def split: option.splits)
  have pre': "dll ns' None pre (Some l)"
  proof -
    have "dll ns' None pre (Some l) = dll ns None pre (Some l)"
    proof (rule dll_cong)
      fix b assume b: "b \<in> set pre"
      then have "b \<noteq> l" "b \<noteq> r" "next_node ln \<noteq> Some b"
        using dist rx xs ln(3) by (cases post; auto)+
      then show "lookup ns' b = lookup ns b" using lk[of b] by simp
    qed
    with d1 show ?thesis by simp
  qed
  have post': "dll ns' (Some r) post None"
  proof (rule dll_set_entry[OF d2])
    show "distinct post" using dist by simp
    fix b assume b: "b \<in> set post"
    then have "b \<noteq> l" "b \<noteq> r" using dist rx xs by auto
    moreover have "next_node ln = Some b \<longleftrightarrow> b = hd post"
      using ln(3) b by (cases post) auto
    ultimately show "lookup ns' b =
      (if b = hd post then map_option (\<lambda>x. x\<lparr>previous := Some r\<rparr>) (lookup ns b) else lookup ns b)"
      using lk[of b] by simp
  qed
  have dn: "dll ns' None (pre @ l # r # post) None"
    using pre' post' lk[of l] lk[of r] lr ln
    by (auto simp: dll_append)
  have distn: "distinct (pre @ l # r # post)" using dist rx xs by auto
  have par: "\<And>b. map_option parent (lookup ns' b) = map_option parent (lookup ns b)"
    using lk ln(1) r by (auto simp: option.map_comp o_def)
  have ch: "\<And>b. map_option child_head (lookup ns' b) = map_option child_head (lookup ns b)"
    using lk ln(1) r by (auto simp: option.map_comp o_def)
  have pr: "map_option parent (lookup ns' r) = Some pp" using lk[of r] lr rp by simp
  have pars: "list_all (\<lambda>x. map_option parent (lookup ns' x) = Some pp) (pre @ l # r # post)"
    using sc pr by (auto simp: sibling_chain_def xs par list_all_iff)
  have hd: "hd (pre @ l # r # post) = hd xs" by (cases pre) (auto simp: xs)
  have "sibling_chain ns' pp (pre @ l # r # post)"
    unfolding sibling_chain_def
    using dn distn pars sc rpp hd
    by (auto simp: sibling_chain_def ch xs split: option.splits)
  with ap new show ?thesis by (simp add: l_def)
qed

lemma tree_node_new_ok:
  assumes "case pp of None \<Rightarrow> True | Some p \<Rightarrow> lookup (nodes m) p \<noteq> None"
  shows "\<exists>m1. tree_node_new True True m pp nm = Inr (Some (length (nodes m)), m1) \<and>
           lookup (nodes m1) (length (nodes m)) =
             Some (zero_node\<lparr>name := Some (length (strs m)), parent := pp\<rparr>) \<and>
           (\<forall>b. b \<noteq> length (nodes m) \<longrightarrow>
              lookup (nodes m1) b =
                (if pp = Some b
                 then map_option (\<lambda>n. if child_head n = None
                                       then n\<lparr>child_head := Some (length (nodes m))\<rparr> else n)
                        (lookup (nodes m) b)
                 else lookup (nodes m) b))"
proof (cases pp)
  case None
  then show ?thesis
    by (auto simp: tree_node_new_def case_prod_beta Let_def fst_alloc lookup_snd_alloc lookup_modify
        zero_node_def)
next
  case (Some p)
  with assms obtain pn where pn: "lookup (nodes m) p = Some pn" by auto
  then have "p \<noteq> length (nodes m)" by (rule lookup_Some_neq_length)
  with Some pn show ?thesis
    by (auto simp: tree_node_new_def case_prod_beta Let_def fst_alloc lookup_snd_alloc lookup_modify)
qed

lemma sibling_chain_cong:
  assumes "\<And>b. b \<in> set xs \<or> pp = Some b \<Longrightarrow> lookup ns' b = lookup ns b"
  shows "sibling_chain ns' pp xs = sibling_chain ns pp xs"
proof -
  have "dll ns' None xs None = dll ns None xs None"
    by (rule dll_cong) (simp add: assms)
  moreover have "list_all (\<lambda>x. map_option parent (lookup ns' x) = Some pp) xs =
                 list_all (\<lambda>x. map_option parent (lookup ns x) = Some pp) xs"
    by (rule list.pred_cong) (simp_all add: assms)
  moreover have "\<And>p. pp = Some p \<Longrightarrow> lookup ns' p = lookup ns p"
    by (simp add: assms)
  ultimately show ?thesis
    by (auto simp: sibling_chain_def split: option.splits)
qed

lemma sibling_chain_valid: "sibling_chain ns pp xs \<Longrightarrow> x \<in> set xs \<Longrightarrow> lookup ns x \<noteq> None"
  by (auto simp: sibling_chain_def dest: dll_valid)

lemma grow_chain_step:
  assumes sc: "sibling_chain (nodes m) pp xs" and k: "k < length xs"
  shows "\<exists>m1 ns'. tree_node_new True True m pp nm = Inr (Some (length (nodes m)), m1) \<and>
           tree_node_append (nodes m1) (Some (xs ! k)) (Some (length (nodes m))) = Inr ns' \<and>
           sibling_chain ns' pp (take (Suc k) xs @ length (nodes m) # drop (Suc k) xs)"
proof -
  let ?r = "length (nodes m)"
  have pv: "case pp of None \<Rightarrow> True | Some p \<Rightarrow> lookup (nodes m) p \<noteq> None"
    using sc by (auto simp: sibling_chain_def split: option.splits)
  from tree_node_new_ok[OF pv, of nm] obtain m1 where
    n: "tree_node_new True True m pp nm = Inr (Some ?r, m1)"
    and r: "lookup (nodes m1) ?r = Some (zero_node\<lparr>name := Some (length (strs m)), parent := pp\<rparr>)"
    and old: "\<And>b. b \<noteq> ?r \<Longrightarrow> lookup (nodes m1) b =
                (if pp = Some b
                 then map_option (\<lambda>n. if child_head n = None then n\<lparr>child_head := Some ?r\<rparr> else n)
                        (lookup (nodes m) b)
                 else lookup (nodes m) b)"
    by blast
  have rx: "?r \<notin> set xs" using sibling_chain_valid[OF sc, of ?r] by (auto simp: lookup_length)
  have rpp: "pp \<noteq> Some ?r" using pv by (auto simp: lookup_length split: option.splits)
  have same: "\<And>b. b \<in> set xs \<or> pp = Some b \<Longrightarrow> lookup (nodes m1) b = lookup (nodes m) b"
  proof -
    fix b assume b: "b \<in> set xs \<or> pp = Some b"
    then have br: "b \<noteq> ?r" using rx rpp by auto
    show "lookup (nodes m1) b = lookup (nodes m) b"
    proof (cases "pp = Some b")
      case True
      with sc obtain pn where "lookup (nodes m) b = Some pn" "child_head pn \<noteq> None"
        by (auto simp: sibling_chain_def)
      with old[OF br] True show ?thesis by simp
    next
      case False
      with old[OF br] show ?thesis by simp
    qed
  qed
  have sc1: "sibling_chain (nodes m1) pp xs"
    using sibling_chain_cong[of xs pp "nodes m1" "nodes m", OF same] sc by simp
  from append_sibling_chain[OF sc1 k r rx _ _ _ rpp] obtain ns' where
    "tree_node_append (nodes m1) (Some (xs ! k)) (Some ?r) = Inr ns'"
    "sibling_chain ns' pp (take (Suc k) xs @ ?r # drop (Suc k) xs)"
    by (auto simp: zero_node_def)
  with n show ?thesis by blast
qed

lemma grow_chain_sibling_chain:
  "sibling_chain (nodes m) pp xs \<Longrightarrow> valid_ops (length xs) ops \<Longrightarrow>
   \<exists>m' xs'. grow_chain m pp xs ops = Some (m', xs') \<and> sibling_chain (nodes m') pp xs' \<and>
            hd xs' = hd xs \<and> length xs' = length xs + length ops"
proof (induction ops arbitrary: m xs)
  case Nil
  then show ?case by simp
next
  case (Cons op ops)
  obtain k nm where op: "op = (k, nm)" by (cases op)
  from Cons.prems op have k: "k < length xs" and v: "valid_ops (Suc (length xs)) ops" by auto
  let ?xs = "take (Suc k) xs @ length (nodes m) # drop (Suc k) xs"
  from grow_chain_step[OF Cons.prems(1) k, of nm] obtain m1 ns' where
    n: "tree_node_new True True m pp nm = Inr (Some (length (nodes m)), m1)"
    and a: "tree_node_append (nodes m1) (Some (xs ! k)) (Some (length (nodes m))) = Inr ns'"
    and sc: "sibling_chain ns' pp ?xs" by blast
  have len: "length ?xs = Suc (length xs)" using k by simp
  have hd: "hd ?xs = hd xs" using k by (cases xs) auto
  from Cons.IH[of "m1\<lparr>nodes := ns'\<rparr>" ?xs] sc v len obtain m' xs' where
    "grow_chain (m1\<lparr>nodes := ns'\<rparr>) pp ?xs ops = Some (m', xs')"
    "sibling_chain (nodes m') pp xs'" "hd xs' = hd ?xs" "length xs' = length ?xs + length ops"
    by auto
  with n a k op hd len show ?case by simp
qed

lemma new_chain_start:
  assumes "childless m pp"
  shows "\<exists>m1. tree_node_new True True m pp nm = Inr (Some (length (nodes m)), m1) \<and>
           sibling_chain (nodes m1) pp [length (nodes m)]"
proof -
  let ?h = "length (nodes m)"
  have pv: "case pp of None \<Rightarrow> True | Some p \<Rightarrow> lookup (nodes m) p \<noteq> None"
    using assms by (auto simp: childless_def split: option.splits)
  from tree_node_new_ok[OF pv, of nm] obtain m1 where
    n: "tree_node_new True True m pp nm = Inr (Some ?h, m1)"
    and r: "lookup (nodes m1) ?h = Some (zero_node\<lparr>name := Some (length (strs m)), parent := pp\<rparr>)"
    and old: "\<And>b. b \<noteq> ?h \<Longrightarrow> lookup (nodes m1) b =
                (if pp = Some b
                 then map_option (\<lambda>n. if child_head n = None then n\<lparr>child_head := Some ?h\<rparr> else n)
                        (lookup (nodes m) b)
                 else lookup (nodes m) b)"
    by blast
  have "sibling_chain (nodes m1) pp [?h]"
  proof (cases pp)
    case None
    with r show ?thesis by (simp add: sibling_chain_def zero_node_def)
  next
    case (Some p)
    with assms obtain pn where pn: "lookup (nodes m) p = Some pn" "child_head pn = None"
      by (auto simp: childless_def split: option.splits)
    then have ph: "p \<noteq> ?h" by (auto dest: lookup_Some_neq_length)
    with old[OF ph] pn Some r show ?thesis
      by (simp add: sibling_chain_def zero_node_def)
  qed
  with n show ?thesis by blast
qed

text \<open>
  C6. A chain is started with a node created under a parent that is null or
  has no child yet, and grown by any steps that each create a node under the
  same parent and append it after a node of the chain. Then
  \<^verbatim>\<open>tree_node_first\<close> returns the first created node, which is the head of the
  chain, for every node of the chain.
\<close>

theorem tree_node_first_same_head:
  assumes "childless m pp" and "valid_ops 1 ops"
  shows "\<exists>m' xs. new_chain m pp nm ops = Some (m', xs) \<and>
           length xs = Suc (length ops) \<and> hd xs = length (nodes m) \<and>
           distinct xs \<and> dll (nodes m') None xs None \<and>
           (\<forall>x \<in> set xs. tree_node_first (nodes m') (Some x) = Some (Inr (Some (hd xs))))"
proof -
  from new_chain_start[OF assms(1), of nm] obtain m1 where
    n: "tree_node_new True True m pp nm = Inr (Some (length (nodes m)), m1)"
    and sc: "sibling_chain (nodes m1) pp [length (nodes m)]" by blast
  from grow_chain_sibling_chain[OF sc, of ops] assms(2) obtain m' xs where
    g: "grow_chain m1 pp [length (nodes m)] ops = Some (m', xs)"
    and sc': "sibling_chain (nodes m') pp xs"
    and h: "hd xs = length (nodes m)" and l: "length xs = Suc (length ops)"
    by auto
  have "new_chain m pp nm ops = Some (m', xs)" using n g by (simp add: new_chain_def)
  moreover have "\<forall>x \<in> set xs. tree_node_first (nodes m') (Some x) = Some (Inr (Some (hd xs)))"
    using first_sibling_chain[OF sc'] by blast
  moreover have "distinct xs" "dll (nodes m') None xs None"
    using sc' by (simp_all add: sibling_chain_def)
  ultimately show ?thesis using h l by blast
qed

theorem tree_node_first_same_head_witness:
  "childless one_node (Some 0) \<and> valid_ops 1 [(0, ''b''), (1, ''c''), (0, ''d'')] \<and>
   (\<exists>m'. new_chain one_node (Some 0) ''a'' [(0, ''b''), (1, ''c''), (0, ''d'')] = Some (m', [1, 4, 2, 3]) \<and>
         tree_node_first (nodes m') (Some 1) = Some (Inr (Some 1)) \<and>
         tree_node_first (nodes m') (Some 4) = Some (Inr (Some 1)) \<and>
         tree_node_first (nodes m') (Some 2) = Some (Inr (Some 1)) \<and>
         tree_node_first (nodes m') (Some 3) = Some (Inr (Some 1)))"
proof -
  have c: "childless one_node (Some 0)"
    by (simp add: childless_def one_node_def lookup_def zero_node_def)
  have v: "valid_ops 1 [(0, ''b''), (1, ''c''), (0, ''d'')]" by simp
  have e: "\<exists>m'. new_chain one_node (Some 0) ''a'' [(0, ''b''), (1, ''c''), (0, ''d'')] = Some (m', [1, 4, 2, 3])"
    by (simp add: new_chain_def one_node_def tree_node_new_def tree_node_append_def
        alloc_def lookup_def modify_def zero_node_def)
  from tree_node_first_same_head[OF c v, of "''a''"] e c v show ?thesis by auto
qed

section \<open>Freeing a forest\<close>

lemma set_names_of: "set (names_of m as) = {s. \<exists>a \<in> set as. name_of m a = Some s}"
  by (induction as) (auto simp: names_of_def split: option.splits)

lemma names_of_append: "names_of m (as @ bs) = names_of m as @ names_of m bs"
  by (simp add: names_of_def List.map_filter_def)

lemma names_of_Cons:
  "names_of m (a # as) = (case name_of m a of None \<Rightarrow> [] | Some s \<Rightarrow> [s]) @ names_of m as"
  by (simp add: names_of_def split: option.splits)

lemma names_of_cong:
  "(\<And>a. a \<in> set as \<Longrightarrow> map_option name (lookup (nodes m') a) = map_option name (lookup (nodes m) a)) \<Longrightarrow>
   names_of m' as = names_of m as"
proof (induction as)
  case Nil
  then show ?case by (simp add: names_of_def)
next
  case (Cons a as)
  have "name_of m' a = name_of m a"
    using Cons.prems[of a] by (auto simp: name_of_def split: option.splits)
  with Cons show ?case by (simp add: names_of_Cons)
qed

lemma first_root_in: "first_root ts = Some b \<Longrightarrow> b \<in> set (addrs_of ts)"
  by (cases ts rule: first_root.cases) auto

lemma first_root_None: "first_root ts = None \<longleftrightarrow> ts = []"
  by (cases ts rule: first_root.cases) auto

lemma wf_forest_valid:
  "wf_forest m p ts \<Longrightarrow> b \<in> set (addrs_of ts) \<Longrightarrow> lookup (nodes m) b \<noteq> None"
  by (induction m p ts rule: wf_forest.induct) (auto split: option.splits)

lemma wf_forest_cong:
  "wf_forest m p ts \<Longrightarrow>
   (\<And>b. b \<in> set (addrs_of ts) \<Longrightarrow> lookup (nodes m') b = lookup (nodes m) b) \<Longrightarrow>
   (\<And>s. s \<in> set (names_of m (addrs_of ts)) \<Longrightarrow> lookup (strs m') s \<noteq> None) \<Longrightarrow>
   wf_forest m' p ts"
proof (induction m p ts rule: wf_forest.induct)
  case (1 m p)
  then show ?case by simp
next
  case (2 m p a cs ts)
  from "2.prems"(1) obtain nd where nd: "lookup (nodes m) a = Some nd"
    "previous nd = p" "next_node nd = first_root ts" "child_head nd = first_root cs"
    "case name nd of None \<Rightarrow> True | Some s \<Rightarrow> lookup (strs m) s \<noteq> None"
    "wf_forest m None cs" "wf_forest m (Some a) ts"
    by (auto split: option.splits)
  have a': "lookup (nodes m') a = Some nd" using "2.prems"(2)[of a] nd(1) by simp
  have nm: "case name nd of None \<Rightarrow> True | Some s \<Rightarrow> lookup (strs m') s \<noteq> None"
  proof (cases "name nd")
    case None
    then show ?thesis by simp
  next
    case (Some s)
    then have "name_of m a = Some s" using nd(1) by (simp add: name_of_def)
    then have "s \<in> set (names_of m (addrs_of (Node a cs # ts)))"
      by (auto simp: set_names_of)
    from "2.prems"(3)[OF this] Some show ?thesis by simp
  qed
  have c: "wf_forest m' None cs"
    by (rule "2.IH"(1)[OF nd(1) nd(6)])
      (use "2.prems"(2,3) in \<open>auto simp: set_names_of\<close>)
  have t: "wf_forest m' (Some a) ts"
    by (rule "2.IH"(2)[OF nd(1) nd(7)])
      (use "2.prems"(2,3) in \<open>auto simp: set_names_of\<close>)
  from a' nd nm c t show ?case by simp
qed

lemma wf_forest_entry:
  assumes wf: "wf_forest m p ts" and dist: "distinct (addrs_of ts)"
    and nodes: "\<And>b. b \<in> set (addrs_of ts) \<Longrightarrow> lookup (nodes m') b =
           (if first_root ts = Some b
            then map_option (\<lambda>x. x\<lparr>previous := p'\<rparr>) (lookup (nodes m) b)
            else lookup (nodes m) b)"
    and strs: "\<And>s. s \<in> set (names_of m (addrs_of ts)) \<Longrightarrow> lookup (strs m') s \<noteq> None"
  shows "wf_forest m' p' ts"
proof (cases ts rule: first_root.cases)
  case 1
  then show ?thesis by simp
next
  case (2 a cs rest)
  from wf 2 obtain nd where nd: "lookup (nodes m) a = Some nd"
    "previous nd = p" "next_node nd = first_root rest" "child_head nd = first_root cs"
    "case name nd of None \<Rightarrow> True | Some s \<Rightarrow> lookup (strs m) s \<noteq> None"
    "wf_forest m None cs" "wf_forest m (Some a) rest"
    by (auto split: option.splits)
  have a': "lookup (nodes m') a = Some (nd\<lparr>previous := p'\<rparr>)"
    using nodes[of a] nd(1) 2 by simp
  have other: "\<And>b. b \<in> set (addrs_of cs) \<union> set (addrs_of rest) \<Longrightarrow>
      lookup (nodes m') b = lookup (nodes m) b"
    using nodes dist 2 by auto
  have nm: "case name nd of None \<Rightarrow> True | Some s \<Rightarrow> lookup (strs m') s \<noteq> None"
  proof (cases "name nd")
    case None
    then show ?thesis by simp
  next
    case (Some s)
    then have "name_of m a = Some s" using nd(1) by (simp add: name_of_def)
    then have "s \<in> set (names_of m (addrs_of ts))"
      using 2 by (auto simp: set_names_of)
    from strs[OF this] Some show ?thesis by simp
  qed
  have c: "wf_forest m' None cs"
    by (rule wf_forest_cong[OF nd(6)]) (use other strs 2 in \<open>auto simp: set_names_of\<close>)
  have t: "wf_forest m' (Some a) rest"
    by (rule wf_forest_cong[OF nd(7)]) (use other strs 2 in \<open>auto simp: set_names_of\<close>)
  from a' nd nm c t 2 show ?thesis by simp
qed

lemma free_recursive_None: "tree_node_free_recursive st None = Some (Inr st)"
  by (subst tree_node_free_recursive.simps) (simp add: pop_None)

lemma free_recursive_step:
  assumes "tree_node_pop (nodes m) (Some a) = Inr (Some a, ns1, list1)"
    and "lookup ns1 a = Some nd1"
    and "(if child_head nd1 \<noteq> None
          then tree_node_free_recursive (m\<lparr>nodes := ns1\<rparr>, log) (child_head nd1)
          else Some (Inr (m\<lparr>nodes := ns1\<rparr>, log))) = Some (Inr (m2, log2))"
    and "tree_node_free (m2\<lparr>nodes := modify (nodes m2) a (\<lambda>n. n\<lparr>child_head := None\<rparr>)\<rparr>) (Some a) = Inr m3"
  shows "tree_node_free_recursive (m, log) (Some a) = tree_node_free_recursive (m3, log2 @ [a]) list1"
  using assms by (subst tree_node_free_recursive.simps) (auto split: if_splits)

lemma wf_forest_names_valid:
  "wf_forest m p ts \<Longrightarrow> s \<in> set (names_of m (addrs_of ts)) \<Longrightarrow> lookup (strs m) s \<noteq> None"
proof (induction m p ts rule: wf_forest.induct)
  case (1 m p)
  then show ?case by (simp add: names_of_def)
next
  case (2 m p a cs ts)
  from "2.prems"(1) obtain nd where nd: "lookup (nodes m) a = Some nd"
    "case name nd of None \<Rightarrow> True | Some s \<Rightarrow> lookup (strs m) s \<noteq> None"
    "wf_forest m None cs" "wf_forest m (Some a) ts"
    by (auto split: option.splits)
  from "2.prems"(2) consider "name_of m a = Some s" | "s \<in> set (names_of m (addrs_of cs))"
    | "s \<in> set (names_of m (addrs_of ts))"
    by (auto simp: set_names_of)
  then show ?case
  proof cases
    case 1
    with nd(1,2) show ?thesis by (auto simp: name_of_def)
  next
    case 2
    from "2.IH"(1)[OF nd(1) nd(3) 2] show ?thesis .
  next
    case 3
    from "2.IH"(2)[OF nd(1) nd(4) 3] show ?thesis .
  qed
qed

lemma lookup_release_modify:
  "lookup (release (modify s a f) a) b = (if b = a then None else lookup s b)"
  by (simp add: lookup_release lookup_modify)

lemma tree_node_free_ok:
  assumes a: "lookup (nodes m) a = Some nd"
    and links: "child_head nd = None" "next_node nd = None" "previous nd = None"
    and nm: "case name nd of None \<Rightarrow> True | Some s \<Rightarrow> lookup (strs m) s \<noteq> None"
  shows "\<exists>m'. tree_node_free m (Some a) = Inr m' \<and>
           released m [a] (case name nd of None \<Rightarrow> [] | Some s \<Rightarrow> [s]) m'"
  using assms
  by (auto simp: tree_node_free_def released_def lookup_release split: option.splits)

lemma free_recursive_forest:
  "wf_forest m None ts \<Longrightarrow> distinct (addrs_of ts) \<Longrightarrow> distinct (names_of m (addrs_of ts)) \<Longrightarrow>
   \<exists>m'. tree_node_free_recursive (m, log) (first_root ts) = Some (Inr (m', log @ postorder ts)) \<and>
         released m (addrs_of ts) (names_of m (addrs_of ts)) m'"
proof (induction ts arbitrary: m log rule: postorder.induct)
  case 1
  then show ?case by (simp add: free_recursive_None released_def names_of_def)
next
  case (2 a cs rest)
  from "2.prems"(1) obtain nd where nd: "lookup (nodes m) a = Some nd"
    "previous nd = None" "next_node nd = first_root rest" "child_head nd = first_root cs"
    and nmv: "case name nd of None \<Rightarrow> True | Some s \<Rightarrow> lookup (strs m) s \<noteq> None"
    and wfc: "wf_forest m None cs" and wfr: "wf_forest m (Some a) rest"
    by (auto split: option.splits)
  from "2.prems"(2) have dist: "a \<notin> set (addrs_of cs)" "a \<notin> set (addrs_of rest)"
    "distinct (addrs_of cs)" "distinct (addrs_of rest)"
    "set (addrs_of cs) \<inter> set (addrs_of rest) = {}"
    by auto
  define na where "na = (case name nd of None \<Rightarrow> [] | Some s \<Rightarrow> [s])"
  have na: "names_of m (addrs_of (Node a cs # rest)) =
            na @ names_of m (addrs_of cs) @ names_of m (addrs_of rest)"
    using nd(1) by (simp add: names_of_Cons names_of_append name_of_def na_def)
  from "2.prems"(3) have nd_dist: "distinct (names_of m (addrs_of cs))"
    "distinct (names_of m (addrs_of rest))"
    "set na \<inter> set (names_of m (addrs_of cs)) = {}"
    "set na \<inter> set (names_of m (addrs_of rest)) = {}"
    "set (names_of m (addrs_of cs)) \<inter> set (names_of m (addrs_of rest)) = {}"
    unfolding na by auto
  \<comment> \<open>the pop of the head\<close>
  have pa: "previous nd \<noteq> Some a" using nd(2) by simp
  have nxa: "next_node nd \<noteq> Some a" using nd(3) dist(2) first_root_in[of rest a] by auto
  have pv: "\<And>p. previous nd = Some p \<Longrightarrow> lookup (nodes m) p \<noteq> None" using nd(2) by simp
  have nv: "\<And>x. next_node nd = Some x \<Longrightarrow> lookup (nodes m) x \<noteq> None"
    using nd(3) first_root_in[of rest] wf_forest_valid[OF wfr] by auto
  from pop_Some[OF nd(1) pa nxa pv nv] obtain ns1 where
    pop: "tree_node_pop (nodes m) (Some a) = Inr (Some a, ns1, first_root rest)"
    and lk0: "\<And>b. lookup ns1 b =
             (if b = a then Some (nd\<lparr>next_node := None, previous := None\<rparr>)
              else map_option
                     (\<lambda>x. (if next_node nd = Some b then x\<lparr>previous := previous nd\<rparr> else x))
                     (map_option (\<lambda>x. if previous nd = Some b then x\<lparr>next_node := next_node nd\<rparr> else x)
                        (lookup (nodes m) b)))"
    using nd(2,3) by auto
  have lk1: "\<And>b. lookup ns1 b =
             (if b = a then Some (nd\<lparr>next_node := None, previous := None\<rparr>)
              else if first_root rest = Some b
                   then map_option (\<lambda>x. x\<lparr>previous := None\<rparr>) (lookup (nodes m) b)
                   else lookup (nodes m) b)"
    using lk0 nd(2,3) by (simp add: option.map_ident)
  define m1 where "m1 = m\<lparr>nodes := ns1\<rparr>"
  define nd1 where "nd1 = nd\<lparr>next_node := None, previous := None\<rparr>"
  have a1: "lookup ns1 a = Some nd1" using lk1[of a] by (simp add: nd1_def)
  have ch1: "child_head nd1 = first_root cs" using nd(4) by (simp add: nd1_def)
  have out1: "\<And>b. b \<noteq> a \<Longrightarrow> b \<notin> set (addrs_of rest) \<Longrightarrow> lookup ns1 b = lookup (nodes m) b"
    using lk1 first_root_in[of rest] by auto
  \<comment> \<open>the children\<close>
  have cs_same: "\<And>b. b \<in> set (addrs_of cs) \<Longrightarrow> lookup (nodes m1) b = lookup (nodes m) b"
  proof -
    fix b assume "b \<in> set (addrs_of cs)"
    then have "b \<noteq> a" "b \<notin> set (addrs_of rest)" using dist by auto
    then show "lookup (nodes m1) b = lookup (nodes m) b" using out1 by (simp add: m1_def)
  qed
  have wf1: "wf_forest m1 None cs"
    by (rule wf_forest_cong[OF wfc cs_same])
      (use wf_forest_names_valid[OF wfc] in \<open>auto simp: m1_def\<close>)
  have names1: "names_of m1 (addrs_of cs) = names_of m (addrs_of cs)"
    by (rule names_of_cong) (simp add: cs_same)
  from "2.IH"(1)[OF wf1 dist(3), of log] nd_dist(1) names1 obtain m2 where
    rec1: "tree_node_free_recursive (m1, log) (first_root cs) = Some (Inr (m2, log @ postorder cs))"
    and rel1: "released m1 (addrs_of cs) (names_of m (addrs_of cs)) m2"
    by auto
  have kids: "(if child_head nd1 \<noteq> None
          then tree_node_free_recursive (m\<lparr>nodes := ns1\<rparr>, log) (child_head nd1)
          else Some (Inr (m\<lparr>nodes := ns1\<rparr>, log))) = Some (Inr (m2, log @ postorder cs))"
    using rec1 ch1 by (auto simp: m1_def free_recursive_None)
  \<comment> \<open>the node itself\<close>
  define m2' where "m2' = m2\<lparr>nodes := modify (nodes m2) a (\<lambda>n. n\<lparr>child_head := None\<rparr>)\<rparr>"
  have a2: "lookup (nodes m2) a = Some nd1"
    using rel1 dist(1) a1 by (simp add: released_def m1_def)
  have a2': "lookup (nodes m2') a = Some (nd1\<lparr>child_head := None\<rparr>)"
    using a2 by (simp add: m2'_def lookup_modify)
  have nm2: "case name (nd1\<lparr>child_head := None\<rparr>) of None \<Rightarrow> True
             | Some s \<Rightarrow> lookup (strs m2') s \<noteq> None"
  proof (cases "name nd")
    case None
    then show ?thesis by (simp add: nd1_def)
  next
    case (Some s)
    then have "s \<notin> set (names_of m (addrs_of cs))" using nd_dist(3) by (auto simp: na_def)
    then have "lookup (strs m2') s = lookup (strs m) s"
      using rel1 by (simp add: released_def m2'_def m1_def)
    with nmv Some show ?thesis by (simp add: nd1_def)
  qed
  from tree_node_free_ok[OF a2' _ _ _ nm2] obtain m3 where
    free: "tree_node_free m2' (Some a) = Inr m3"
    and rel2: "released m2' [a] na m3"
    by (auto simp: nd1_def na_def)
  have n3: "\<And>b. lookup (nodes m3) b =
      (if b = a \<or> b \<in> set (addrs_of cs) then None else lookup ns1 b)"
    using rel1 rel2 by (auto simp: released_def m2'_def m1_def lookup_modify)
  have s3: "\<And>s. lookup (strs m3) s =
      (if s \<in> set na \<or> s \<in> set (names_of m (addrs_of cs)) then None else lookup (strs m) s)"
    using rel1 rel2 by (auto simp: released_def m2'_def m1_def)
  have i3: "items m3 = items m"
    using rel1 rel2 by (auto simp: released_def m2'_def m1_def)
  \<comment> \<open>the rest of the chain\<close>
  have rest_nodes: "\<And>b. b \<in> set (addrs_of rest) \<Longrightarrow> lookup (nodes m3) b =
           (if first_root rest = Some b
            then map_option (\<lambda>x. x\<lparr>previous := None\<rparr>) (lookup (nodes m) b)
            else lookup (nodes m) b)"
  proof -
    fix b assume "b \<in> set (addrs_of rest)"
    then have "b \<noteq> a" "b \<notin> set (addrs_of cs)" using dist by auto
    then show "lookup (nodes m3) b =
           (if first_root rest = Some b
            then map_option (\<lambda>x. x\<lparr>previous := None\<rparr>) (lookup (nodes m) b)
            else lookup (nodes m) b)"
      using n3[of b] lk1[of b] by simp
  qed
  have rest_strs: "\<And>s. s \<in> set (names_of m (addrs_of rest)) \<Longrightarrow> lookup (strs m3) s \<noteq> None"
  proof -
    fix s assume s: "s \<in> set (names_of m (addrs_of rest))"
    then have "s \<notin> set na" "s \<notin> set (names_of m (addrs_of cs))" using nd_dist(4,5) by auto
    then show "lookup (strs m3) s \<noteq> None"
      using s3[of s] wf_forest_names_valid[OF wfr s] by simp
  qed
  have wf3: "wf_forest m3 None rest"
    by (rule wf_forest_entry[OF wfr dist(4) rest_nodes rest_strs])
  have names3: "names_of m3 (addrs_of rest) = names_of m (addrs_of rest)"
    by (rule names_of_cong) (auto simp: rest_nodes option.map_comp o_def)
  from "2.IH"(2)[OF wf3 dist(4), of "(log @ postorder cs) @ [a]"] nd_dist(2) names3 obtain m' where
    rec2: "tree_node_free_recursive (m3, (log @ postorder cs) @ [a]) (first_root rest) =
             Some (Inr (m', ((log @ postorder cs) @ [a]) @ postorder rest))"
    and rel3: "released m3 (addrs_of rest) (names_of m (addrs_of rest)) m'"
    by auto
  have run: "tree_node_free_recursive (m, log) (Some a) =
             Some (Inr (m', log @ postorder (Node a cs # rest)))"
    using free_recursive_step[OF pop a1 kids free[unfolded m2'_def]] rec2 by simp
  have "released m (addrs_of (Node a cs # rest)) (names_of m (addrs_of (Node a cs # rest))) m'"
    unfolding na released_def
  proof (intro conjI allI)
    show "items m' = items m" using rel3 i3 by (simp add: released_def)
  next
    fix b
    show "lookup (nodes m') b =
          (if b \<in> set (addrs_of (Node a cs # rest)) then None else lookup (nodes m) b)"
      using rel3 n3[of b] out1[of b] by (auto simp: released_def)
  next
    fix s
    show "lookup (strs m') s =
          (if s \<in> set (na @ names_of m (addrs_of cs) @ names_of m (addrs_of rest)) then None
           else lookup (strs m) s)"
      using rel3 s3[of s] by (auto simp: released_def)
  qed
  with run show ?case by simp
qed

lemma length_postorder: "length (postorder ts) = length (addrs_of ts)"
  by (induction ts rule: postorder.induct) auto

lemma set_postorder: "set (postorder ts) = set (addrs_of ts)"
  by (induction ts rule: postorder.induct) auto

lemma distinct_postorder: "distinct (addrs_of ts) \<Longrightarrow> distinct (postorder ts)"
  by (induction ts rule: postorder.induct) (auto simp: set_postorder)

lemma children_first_postorder:
  "distinct (addrs_of ts) \<Longrightarrow> set (addrs_of ts) \<inter> set pre = {} \<Longrightarrow>
   children_first ts (pre @ postorder ts @ post)"
proof (induction ts arbitrary: pre post rule: postorder.induct)
  case 1
  then show ?case by simp
next
  case (2 a cs rest)
  from "2.prems" have d: "distinct (addrs_of cs)" "distinct (addrs_of rest)"
    "a \<notin> set (addrs_of cs)" "a \<notin> set (addrs_of rest)" "a \<notin> set pre"
    "set (addrs_of cs) \<inter> set (addrs_of rest) = {}"
    "set (addrs_of cs) \<inter> set pre = {}" "set (addrs_of rest) \<inter> set pre = {}"
    by auto
  have tw: "takeWhile (\<lambda>x. x \<noteq> a) ((pre @ postorder cs) @ a # postorder rest @ post) =
            pre @ postorder cs"
    by (rule takeWhile_tail[THEN trans, OF _ takeWhile_eq_all_conv[THEN iffD2]])
       (use d in \<open>auto simp: set_postorder\<close>)
  have 1: "\<forall>c \<in> set (addrs_of cs).
             c \<in> set (takeWhile (\<lambda>x. x \<noteq> a) (pre @ postorder (Node a cs # rest) @ post))"
    using tw by (simp add: set_postorder)
  have 2: "children_first cs (pre @ postorder cs @ (a # postorder rest @ post))"
    by (rule "2.IH"(1)[OF d(1) d(7)])
  have "set (addrs_of rest) \<inter> set (pre @ postorder cs @ [a]) = {}"
    using d by (auto simp: set_postorder)
  from "2.IH"(2)[OF d(2) this, of post]
  have 3: "children_first rest ((pre @ postorder cs @ [a]) @ postorder rest @ post)" .
  from 1 2 3 show ?case by simp
qed

lemma build_abc: "build_abc = Some abc_memory"
  by (simp add: build_abc_def abc_memory_def new_chain_def empty_memory_def tree_node_new_def
      tree_node_append_def alloc_def lookup_def modify_def zero_node_def)

text \<open>
  C7. When the store holds a forest \<open>ts\<close> of distinct nodes with distinct names,
  \<^verbatim>\<open>tree_node_free_recursive\<close> on its first root returns, it has handed exactly
  the nodes of \<open>ts\<close> to \<^verbatim>\<open>tree_node_free\<close>, each once and each after all nodes
  below it, every node of \<open>ts\<close> and every name is released and nothing else is
  changed. On a null chain it returns at once and changes nothing.
\<close>

theorem tree_node_free_recursive_forest:
  "tree_node_free_recursive st None = Some (Inr st) \<and>
   (wf_forest m None ts \<and> distinct (addrs_of ts) \<and> distinct (names_of m (addrs_of ts)) \<longrightarrow>
      (\<exists>m'. tree_node_free_recursive (m, log) (first_root ts) = Some (Inr (m', log @ postorder ts)) \<and>
            length (postorder ts) = length (addrs_of ts) \<and>
            set (postorder ts) = set (addrs_of ts) \<and>
            distinct (postorder ts) \<and>
            children_first ts (postorder ts) \<and>
            (\<forall>a \<in> set (addrs_of ts). lookup (nodes m') a = None) \<and>
            released m (addrs_of ts) (names_of m (addrs_of ts)) m'))"
proof (intro conjI impI)
  show "tree_node_free_recursive st None = Some (Inr st)" by (rule free_recursive_None)
next
  assume h: "wf_forest m None ts \<and> distinct (addrs_of ts) \<and> distinct (names_of m (addrs_of ts))"
  with free_recursive_forest[of m ts log] obtain m' where
    r: "tree_node_free_recursive (m, log) (first_root ts) = Some (Inr (m', log @ postorder ts))"
    and rel: "released m (addrs_of ts) (names_of m (addrs_of ts)) m'" by blast
  have cf: "children_first ts (postorder ts)"
    using children_first_postorder[of ts "[]" "[]"] h by simp
  have "\<forall>a \<in> set (addrs_of ts). lookup (nodes m') a = None"
    using rel by (simp add: released_def)
  with r rel cf h show "\<exists>m'. tree_node_free_recursive (m, log) (first_root ts) = Some (Inr (m', log @ postorder ts)) \<and>
            length (postorder ts) = length (addrs_of ts) \<and>
            set (postorder ts) = set (addrs_of ts) \<and>
            distinct (postorder ts) \<and>
            children_first ts (postorder ts) \<and>
            (\<forall>a \<in> set (addrs_of ts). lookup (nodes m') a = None) \<and>
            released m (addrs_of ts) (names_of m (addrs_of ts)) m'"
    by (auto simp: length_postorder set_postorder distinct_postorder)
qed

theorem tree_node_free_recursive_forest_witness:
  "wf_forest abc_memory None abc_forest \<and> distinct (addrs_of abc_forest) \<and>
   distinct (names_of abc_memory (addrs_of abc_forest)) \<and>
   (\<exists>m'. tree_node_free_recursive (abc_memory, []) (Some 0) = Some (Inr (m', [0, 3, 1, 2])) \<and>
         lookup (nodes m') 0 = None \<and> lookup (nodes m') 1 = None \<and>
         lookup (nodes m') 2 = None \<and> lookup (nodes m') 3 = None)"
proof -
  have h: "wf_forest abc_memory None abc_forest \<and> distinct (addrs_of abc_forest) \<and>
           distinct (names_of abc_memory (addrs_of abc_forest))"
    by (simp add: abc_memory_def abc_forest_def lookup_def zero_node_def names_of_def name_of_def)
  from tree_node_free_recursive_forest[of "(abc_memory, [])" abc_memory abc_forest "[]"] h
  show ?thesis by (auto simp: abc_forest_def)
qed

section \<open>Runs of the update\<close>

lemma abc_start: "tree_view_init True True True abc_memory (Some 0) = (Some abc_view, abc_start)"
  by (simp add: tree_view_init_def abc_memory_def abc_view_def abc_start_def new_item_def alloc_def)

lemma build_two_parents: "build_two_parents = Some two_parents"
  by (simp add: build_two_parents_def two_parents_def new_chain_def empty_memory_def
      tree_node_new_def tree_node_append_def alloc_def lookup_def modify_def zero_node_def)

lemma two_start:
  "tree_view_init True True True two_parents (Some 0) = (Some abc_view, two_start)"
  by (simp add: tree_view_init_def two_parents_def abc_view_def two_start_def new_item_def alloc_def)

lemma abc_second_label: "label_in abc_second 1 = Some None"
  by code_simp

text \<open>
  C3 as stated fails: after the update on the child chain of \<^verbatim>\<open>"b"\<close> the label
  of \<^verbatim>\<open>"b"\<close> (node 1) is not \<^verbatim>\<open>"+b"\<close>.
\<close>

theorem abc_label_not_kept:
  "\<not> (shown abc_first = Some (WERR_OK, [Some ''a'', Some ''+b'', Some ''c''], [Some 0, Some 1, Some 2]) \<and>
      shown abc_second = Some (WERR_OK, [Some ''b1''], [Some 3]) \<and>
      label_in abc_second 1 = Some (Some ''+b''))"
  using abc_second_label by simp

text \<open>
  C3, amended. The update on the root chain posts the items \<^verbatim>\<open>"a"\<close>, \<^verbatim>\<open>"+b"\<close>, \<^verbatim>\<open>"c"\<close>
  for the nodes 0, 1, 2 and leaves \<^verbatim>\<open>"+b"\<close> as the label of \<^verbatim>\<open>"b"\<close>: the field of node 1
  holds the address 5, where the string \<^verbatim>\<open>"+b"\<close> is.  The update on the child chain
  of \<^verbatim>\<open>"b"\<close> then posts the one item \<^verbatim>\<open>"b1"\<close> for node 3; after it the node \<^verbatim>\<open>"b"\<close> is
  still allocated, its label field is null, and the string at address 5 has
  been released.
\<close>

theorem abc_two_updates:
  "shown abc_first = Some (WERR_OK, [Some ''a'', Some ''+b'', Some ''c''], [Some 0, Some 1, Some 2]) \<and>
   label_in abc_first 1 = Some (Some ''+b'') \<and>
   label_field_in abc_first 1 = Some (Some (Some 5)) \<and>
   string_in abc_first 5 = Some (Some ''+b'') \<and>
   shown abc_second = Some (WERR_OK, [Some ''b1''], [Some 3]) \<and>
   label_in abc_second 1 = Some None \<and>
   label_field_in abc_second 1 = Some (Some None) \<and>
   string_in abc_second 5 = Some None"
  by code_simp

text \<open>
  C8, on the code. \<^verbatim>\<open>new_item\<close> returns null for the second node of the root
  chain: the update returns \<^verbatim>\<open>WERR_OK\<close>, and the posted list ends at the null
  entry, after the item of \<^verbatim>\<open>"a"\<close>.
\<close>

theorem failed_item_not_reported:
  "shown abc_item_fails = Some (WERR_OK, [Some ''a''], [Some 0])"
  by code_simp

text \<open>
  C1, on the code. The posted item of the node \<^verbatim>\<open>"p"\<close>, which has a child, has
  the right user pointer, and its text has been released: the update derived
  the label \<^verbatim>\<open>"+p"\<close>, gave it to the new item, and then released it through the
  item that the previous list held for the same node.
\<close>

theorem refreshed_text_released:
  "shown refresh_after_child = Some (WERR_OK, [None], [Some 0]) \<and>
   label_in refresh_after_child 0 = Some None"
  by code_simp

text \<open>
  C9 as stated fails: the label allocation for the second node fails, the
  update returns \<^verbatim>\<open>WERR_NOMEM\<close>, the first node keeps its new label and the
  current items are the old ones, which do not point to it.
\<close>

theorem failed_update_leaves_label:
  "label_inv two_start abc_view \<and> inv_in two_label_fails = Some (WERR_NOMEM, False) \<and>
   label_in two_label_fails 0 = Some (Some ''+x'')"
  by code_simp

section \<open>Walking a chain\<close>


lemma count_items_path:
  "count_items ns tmp k = Some r \<Longrightarrow>
   (case r of Inl e \<Rightarrow> True | Inr n \<Rightarrow> (\<exists>xs. next_path ns tmp xs \<and> n = k + length xs))"
proof (induction rule: count_items.raw_induct[rotated, consumes 1])
  case (1 f ns tmp k r)
  show ?case
  proof (cases tmp)
    case None
    with 1(2) show ?thesis by auto
  next
    case (Some a)
    show ?thesis
    proof (cases "lookup ns a")
      case None
      with 1(2) Some show ?thesis by auto
    next
      case (Some nd)
      with 1(2) \<open>tmp = Some a\<close> have "f ns (next_node nd) (Suc k) = Some r" by simp
      note ih = 1(1)[OF this]
      show ?thesis
      proof (cases r)
        case (Inl e)
        then show ?thesis by simp
      next
        case (Inr n)
        with ih obtain xs where "next_path ns (next_node nd) xs" "n = Suc k + length xs" by auto
        with Some \<open>tmp = Some a\<close> have "next_path ns tmp (a # xs) \<and> n = k + length (a # xs)"
          by simp
        with Inr show ?thesis by (auto simp del: next_path.simps)
      qed
    qed
  qed
qed

lemma next_path_count:
  "next_path ns tmp xs \<Longrightarrow> count_items ns tmp k = Some (Inr (k + length xs))"
proof (induction xs arbitrary: tmp k)
  case Nil
  then show ?case by (subst count_items.simps) simp
next
  case (Cons x xs)
  then obtain nd where nd: "tmp = Some x" "lookup ns x = Some nd" "next_path ns (next_node nd) xs"
    by (auto split: option.splits)
  from Cons.IH[OF nd(3), of "Suc k"] nd show ?case
    by (subst count_items.simps) simp
qed

lemma next_path_unique: "next_path ns p xs \<Longrightarrow> next_path ns p ys \<Longrightarrow> xs = ys"
proof (induction xs arbitrary: p ys)
  case Nil
  then show ?case by (cases ys) auto
next
  case (Cons x xs)
  then show ?case by (cases ys) (auto split: option.splits)
qed

lemma next_path_cong:
  "(\<And>a. map_option next_node (lookup ns' a) = map_option next_node (lookup ns a)) \<Longrightarrow>
   next_path ns' p xs = next_path ns p xs"
proof (induction xs arbitrary: p)
  case Nil
  then show ?case by simp
next
  case (Cons x xs)
  from Cons.prems[of x] Cons.IH[OF Cons.prems] show ?case
    by (cases "lookup ns x"; cases "lookup ns' x") auto
qed

section \<open>Releasing the current items\<close>

lemma set_map_filter_eq: "set (List.map_filter f xs) = {y. \<exists>x \<in> set xs. f x = Some y}"
  by (induction xs) (auto split: option.splits)

lemma map_filter_cong_set:
  "(\<And>x. x \<in> set xs \<Longrightarrow> f x = g x) \<Longrightarrow> List.map_filter f xs = List.map_filter g xs"
  by (induction xs) (auto split: option.splits)

lemma clear_label_id: "label nd = None \<Longrightarrow> nd\<lparr>label := None\<rparr> = nd"
  by (cases nd) simp

lemma free_items_loop_OK:
  "free_items_loop m arr = Inr m' \<Longrightarrow>
     distinct (entries arr) \<and> (\<forall>j \<in> set (entries arr). lookup (items m) j \<noteq> None) \<and>
     (\<forall>j. lookup (items m') j = (if j \<in> set (entries arr) then None else lookup (items m) j)) \<and>
     (\<forall>a. lookup (nodes m') a =
        (if a \<in> set (List.map_filter (item_node m) (entries arr))
         then map_option (\<lambda>nd. nd\<lparr>label := None\<rparr>) (lookup (nodes m) a)
         else lookup (nodes m) a)) \<and>
     (\<forall>s. lookup (strs m') s =
        (if s \<in> set (List.map_filter (label_of m) (List.map_filter (item_node m) (entries arr)))
         then None else lookup (strs m) s))"
proof (induction m arr arbitrary: m' rule: free_items_loop.induct)
  case (1 m)
  then show ?case by simp
next
  case (2 m rest)
  then show ?case by simp
next
  case (3 m it rest)
  from "3.prems" obtain i where i: "lookup (items m) it = Some i"
    by (auto split: option.splits)
  define step where "step =
    (case item_userptr i of
       None \<Rightarrow> Inr m
     | Some t \<Rightarrow>
         (case lookup (nodes m) t of
            None \<Rightarrow> Inl BadPointer
          | Some nd \<Rightarrow>
              (case label nd of
                 None \<Rightarrow> Inr m
               | Some l \<Rightarrow>
                   if lookup (strs m) l = None then Inl BadPointer
                   else Inr (m\<lparr>strs := release (strs m) l,
                               nodes := modify (nodes m) t (\<lambda>n. n\<lparr>label := None\<rparr>)\<rparr>))))"
  from "3.prems" i obtain ma where ma: "step = Inr ma"
    and rest: "free_items_loop (ma\<lparr>items := release (items ma) it\<rparr>) rest = Inr m'"
    by (auto simp: step_def split: sum.splits)
  define mb where "mb = ma\<lparr>items := release (items ma) it\<rparr>"
  have ima: "items ma = items m"
    using ma by (auto simp: step_def split: option.splits if_splits)
  \<comment> \<open>what the body does to nodes and strings\<close>
  have nma: "\<And>a. lookup (nodes ma) a =
      (if item_userptr i = Some a then map_option (\<lambda>nd. nd\<lparr>label := None\<rparr>) (lookup (nodes m) a)
       else lookup (nodes m) a)"
    using ma by (auto simp: step_def lookup_modify clear_label_id split: option.splits if_splits)
  have sma: "\<And>s. lookup (strs ma) s =
      (if (\<exists>t. item_userptr i = Some t \<and> label_of m t = Some s) then None else lookup (strs m) s)"
    using ma by (auto simp: step_def lookup_release label_of_def split: option.splits if_splits)
  have lma: "\<And>a. label_of ma a = (if item_userptr i = Some a then None else label_of m a)"
    using nma by (auto simp: label_of_def split: option.splits)
  from "3.IH"[OF i, of ma m'] ma rest
  have ih: "distinct (entries rest)" "\<forall>j \<in> set (entries rest). lookup (items mb) j \<noteq> None"
    "\<forall>j. lookup (items m') j = (if j \<in> set (entries rest) then None else lookup (items mb) j)"
    "\<forall>a. lookup (nodes m') a =
        (if a \<in> set (List.map_filter (item_node mb) (entries rest))
         then map_option (\<lambda>nd. nd\<lparr>label := None\<rparr>) (lookup (nodes mb) a)
         else lookup (nodes mb) a)"
    "\<forall>s. lookup (strs m') s =
        (if s \<in> set (List.map_filter (label_of mb) (List.map_filter (item_node mb) (entries rest)))
         then None else lookup (strs mb) s)"
    by (simp_all add: step_def mb_def)
  have imb: "\<And>j. lookup (items mb) j = (if j = it then None else lookup (items m) j)"
    by (simp add: mb_def ima lookup_release)
  have notin: "it \<notin> set (entries rest)" using ih(2) imb by auto
  have inode: "\<And>j. j \<in> set (entries rest) \<Longrightarrow> item_node mb j = item_node m j"
    using notin by (auto simp: item_node_def imb)
  have T: "List.map_filter (item_node mb) (entries rest) = List.map_filter (item_node m) (entries rest)"
    by (rule map_filter_cong_set) (rule inode)
  have nmb: "nodes mb = nodes ma" "strs mb = strs ma" by (simp_all add: mb_def)
  have lmb: "\<And>a. label_of mb a = label_of ma a" by (simp add: label_of_def nmb)
  have Tit: "List.map_filter (item_node m) (entries (Some it # rest)) =
      (case item_userptr i of None \<Rightarrow> [] | Some t \<Rightarrow> [t]) @ List.map_filter (item_node m) (entries rest)"
    using i by (simp add: item_node_def split: option.splits)
  have c1: "distinct (entries (Some it # rest))" using notin ih(1) by simp
  have c2: "\<forall>j \<in> set (entries (Some it # rest)). lookup (items m) j \<noteq> None"
  proof
    fix j assume "j \<in> set (entries (Some it # rest))"
    then consider "j = it" | "j \<in> set (entries rest)" by auto
    then show "lookup (items m) j \<noteq> None"
    proof cases
      case 1
      with i show ?thesis by simp
    next
      case 2
      with ih(2) have "lookup (items mb) j \<noteq> None" by blast
      then show ?thesis by (simp add: imb split: if_splits)
    qed
  qed
  have c3: "\<forall>j. lookup (items m') j =
      (if j \<in> set (entries (Some it # rest)) then None else lookup (items m) j)"
    using ih(3) imb by auto
  have c4: "\<forall>a. lookup (nodes m') a =
        (if a \<in> set (List.map_filter (item_node m) (entries (Some it # rest)))
         then map_option (\<lambda>nd. nd\<lparr>label := None\<rparr>) (lookup (nodes m) a)
         else lookup (nodes m) a)"
    unfolding Tit using ih(4) nma
    by (auto simp: T nmb option.map_comp o_def split: option.splits)
  have c5: "\<forall>s. lookup (strs m') s =
        (if s \<in> set (List.map_filter (label_of m) (List.map_filter (item_node m) (entries (Some it # rest))))
         then None else lookup (strs m) s)"
    unfolding Tit using ih(5) sma lma
    by (auto simp: T nmb lmb set_map_filter_eq split: option.splits if_splits)
  from c1 c2 c3 c4 c5 show ?case by blast
qed

section \<open>Building the items\<close>

lemma lookup_append_old: "lookup s a \<noteq> None \<Longrightarrow> lookup (s @ ext) a = lookup s a"
  by (auto simp: lookup_def nth_append)

lemma lookup_append_Some: "lookup s a = Some v \<Longrightarrow> lookup (s @ ext) a = Some v"
  by (auto simp: lookup_def nth_append split: if_splits)

lemma lookup_append_new: "lookup (s @ [Some v]) (length s) = Some v"
  by (simp add: lookup_def)

lemma modify_append_new: "modify (s @ [Some v]) (length s) f = s @ [Some (f v)]"
  by (simp add: modify_def lookup_def)

lemma build_items_Cons:
  assumes nd: "lookup (nodes m) x = Some nd"
    and res: "build_items env m (Some x) i arr = Some (Inr (WERR_OK, m1, arr1))"
  shows "\<exists>mc lab. i < length arr \<and>
       build_items env mc (next_node nd) (Suc i)
         (arr[i := (if item_ok env i then Some (length (items m)) else None)]) =
         Some (Inr (WERR_OK, m1, arr1)) \<and>
       items mc =
         (if item_ok env i
          then items m @ [Some \<lparr>item_name = lab, item_description = name nd,
                                 item_userptr = Some x\<rparr>]
          else items m) \<and>
       (if child_head nd = None then nodes mc = nodes m \<and> strs mc = strs m \<and> lab = name nd
        else label nd = None \<and> label_ok env i \<and> lab = Some (length (strs m)) \<and>
             (\<exists>s tx. name nd = Some s \<and> lookup (strs m) s = Some tx \<and>
                     strs mc = strs m @ [Some (CHR ''+'' # tx)]) \<and>
             nodes mc = modify (nodes m) x (\<lambda>n. n\<lparr>label := Some (length (strs m))\<rparr>))"
proof -
  let ?ok = "item_ok env i"
  from res nd obtain lab ma where dl: "derive_label (label_ok env i) m x nd = Inr (Some (lab, ma))"
    and il: "i < length arr"
    and rec: "build_items env
                (set_item_userptr (snd (new_item ?ok ma lab (name nd)))
                   (fst (new_item ?ok ma lab (name nd))) (Some x))
                (next_node nd) (Suc i) (arr[i := fst (new_item ?ok ma lab (name nd))]) =
              Some (Inr (WERR_OK, m1, arr1))"
    by (subst (asm) build_items.simps)
       (auto simp: case_prod_beta split: sum.splits option.splits if_splits)
  have ima: "items ma = items m"
    using dl by (auto simp: derive_label_def case_prod_beta split: if_splits option.splits)
  have ni: "fst (new_item ?ok ma lab (name nd)) = (if ?ok then Some (length (items m)) else None)"
    by (simp add: new_item_def case_prod_beta fst_alloc ima)
  define mc where "mc = set_item_userptr (snd (new_item ?ok ma lab (name nd)))
                   (fst (new_item ?ok ma lab (name nd))) (Some x)"
  have imc: "items mc =
         (if ?ok
          then items m @ [Some \<lparr>item_name = lab, item_description = name nd,
                                 item_userptr = Some x\<rparr>]
          else items m)"
    by (simp add: mc_def ni set_item_userptr_def)
       (simp add: new_item_def alloc_def ima modify_append_new)
  have nsc: "nodes mc = nodes ma" "strs mc = strs ma"
    by (simp_all add: mc_def ni set_item_userptr_def)
       (simp_all add: new_item_def case_prod_beta)
  have eff: "if child_head nd = None then nodes mc = nodes m \<and> strs mc = strs m \<and> lab = name nd
        else label nd = None \<and> label_ok env i \<and> lab = Some (length (strs m)) \<and>
             (\<exists>s tx. name nd = Some s \<and> lookup (strs m) s = Some tx \<and>
                     strs mc = strs m @ [Some (CHR ''+'' # tx)]) \<and>
             nodes mc = modify (nodes m) x (\<lambda>n. n\<lparr>label := Some (length (strs m))\<rparr>)"
    using dl unfolding nsc
    by (auto simp: derive_label_def alloc_def split: if_splits option.splits)
  from il rec[folded mc_def, unfolded ni] imc eff show ?thesis by blast
qed

lemma build_items_OK:
  assumes "next_path (nodes m) tmp xs"
    and "build_items env m tmp i arr = Some (Inr (WERR_OK, m1, arr1))"
  shows "\<exists>ents. length ents = length xs \<and>
      arr1 = take i arr @ ents @ drop (i + length xs) arr \<and>
      (\<forall>k<length xs.
         if item_ok env (i + k)
         then (\<exists>it. ents ! k = Some it \<and> item_node m1 it = Some (xs ! k) \<and>
                    length (items m) \<le> it \<and>
                    (\<forall>tx. name_text m (xs ! k) = Some tx \<longrightarrow>
                       item_text m1 it =
                         Some (if has_child m (xs ! k) then CHR ''+'' # tx else tx)))
         else ents ! k = None) \<and>
      (\<exists>ext. items m1 = items m @ ext) \<and> (\<exists>ext. strs m1 = strs m @ ext) \<and>
      (\<forall>a. lookup (nodes m1) a = lookup (nodes m) a \<or>
           (a \<in> set xs \<and>
            (\<exists>nd l. lookup (nodes m) a = Some nd \<and> child_head nd \<noteq> None \<and> label nd = None \<and>
                    lookup (nodes m1) a = Some (nd\<lparr>label := Some l\<rparr>)))) \<and>
      (\<forall>a \<in> set xs. \<forall>nd. lookup (nodes m) a = Some nd \<longrightarrow> child_head nd \<noteq> None \<longrightarrow> label nd = None) \<and>
      (\<forall>k<length xs. has_child m (xs ! k) \<longrightarrow> label_ok env (i + k))"
  using assms
proof (induction xs arbitrary: m tmp i arr)
  case Nil
  then have "tmp = None" by simp
  with Nil.prems(2) have "m1 = m" "arr1 = arr"
    by (subst (asm) build_items.simps, simp)+
  then show ?case by simp
next
  case (Cons x xs)
  from Cons.prems(1) obtain nd where tmp: "tmp = Some x" and nd: "lookup (nodes m) x = Some nd"
    and np: "next_path (nodes m) (next_node nd) xs"
    by (auto split: option.splits)
  let ?it = "length (items m)"
  let ?e = "if item_ok env i then Some ?it else None"
  from build_items_Cons[OF nd Cons.prems(2)[unfolded tmp]] obtain mc lab where
    il: "i < length arr"
    and rec: "build_items env mc (next_node nd) (Suc i) (arr[i := ?e]) =
         Some (Inr (WERR_OK, m1, arr1))"
    and imc: "items mc =
         (if item_ok env i
          then items m @ [Some \<lparr>item_name = lab, item_description = name nd,
                                 item_userptr = Some x\<rparr>]
          else items m)"
    and eff: "if child_head nd = None then nodes mc = nodes m \<and> strs mc = strs m \<and> lab = name nd
        else label nd = None \<and> label_ok env i \<and> lab = Some (length (strs m)) \<and>
             (\<exists>s tx. name nd = Some s \<and> lookup (strs m) s = Some tx \<and>
                     strs mc = strs m @ [Some (CHR ''+'' # tx)]) \<and>
             nodes mc = modify (nodes m) x (\<lambda>n. n\<lparr>label := Some (length (strs m))\<rparr>)"
    by blast
  \<comment> \<open>from \<open>m\<close> to \<open>mc\<close>\<close>
  have tn: "\<And>a. lookup (nodes mc) a =
      (if a = x \<and> child_head nd \<noteq> None then Some (nd\<lparr>label := Some (length (strs m))\<rparr>)
       else lookup (nodes m) a)"
    using eff nd by (auto simp: lookup_modify split: if_splits)
  have lab0: "child_head nd \<noteq> None \<Longrightarrow> label nd = None" using eff by (simp split: if_splits)
  obtain e where ts: "strs mc = strs m @ e" using eff by (auto split: if_splits)
  obtain e' where ti: "items mc = items m @ e'" using imc by (auto split: if_splits)
  have nxt: "\<And>a. map_option next_node (lookup (nodes mc) a) = map_option next_node (lookup (nodes m) a)"
    using tn nd by auto
  have np': "next_path (nodes mc) (next_node nd) xs"
    using next_path_cong[of "nodes mc" "nodes m", OF nxt] np by simp
  have hc: "\<And>a. has_child mc a = has_child m a"
    using tn nd by (auto simp: has_child_def)
  have nt: "\<And>a tx. name_text m a = Some tx \<Longrightarrow> name_text mc a = Some tx"
    using tn nd ts by (auto simp: name_text_def lookup_append_Some split: option.splits if_splits)
  from Cons.IH[OF np' rec] obtain ents where
    len: "length ents = length xs"
    and arr1: "arr1 = take (Suc i) (arr[i := ?e]) @ ents @ drop (Suc i + length xs) (arr[i := ?e])"
    and its: "\<forall>k<length xs.
         if item_ok env (Suc i + k)
         then (\<exists>it. ents ! k = Some it \<and> item_node m1 it = Some (xs ! k) \<and>
                    length (items mc) \<le> it \<and>
                    (\<forall>tx. name_text mc (xs ! k) = Some tx \<longrightarrow>
                       item_text m1 it =
                         Some (if has_child mc (xs ! k) then CHR ''+'' # tx else tx)))
         else ents ! k = None"
    and iext: "\<exists>ext. items m1 = items mc @ ext" and sext: "\<exists>ext. strs m1 = strs mc @ ext"
    and nds: "\<forall>a. lookup (nodes m1) a = lookup (nodes mc) a \<or>
           (a \<in> set xs \<and>
            (\<exists>nd l. lookup (nodes mc) a = Some nd \<and> child_head nd \<noteq> None \<and> label nd = None \<and>
                    lookup (nodes m1) a = Some (nd\<lparr>label := Some l\<rparr>)))"
    and asr: "\<forall>a \<in> set xs. \<forall>nd. lookup (nodes mc) a = Some nd \<longrightarrow> child_head nd \<noteq> None \<longrightarrow> label nd = None"
    and lok: "\<forall>k<length xs. has_child mc (xs ! k) \<longrightarrow> label_ok env (Suc i + k)"
    by blast
  from iext obtain ie where ie: "items m1 = items mc @ ie" by blast
  from sext obtain se where se: "strs m1 = strs mc @ se" by blast
  \<comment> \<open>the item of \<open>x\<close>\<close>
  have head: "item_ok env i \<Longrightarrow>
      item_node m1 ?it = Some x \<and>
      (\<forall>tx. name_text m x = Some tx \<longrightarrow>
         item_text m1 ?it = Some (if has_child m x then CHR ''+'' # tx else tx))"
  proof -
    assume ok: "item_ok env i"
    have it0: "lookup (items m1) ?it = Some \<lparr>item_name = lab, item_description = name nd,
                                    item_userptr = Some x\<rparr>"
      unfolding ie using imc ok by (simp add: lookup_def nth_append)
    have ref0: "item_node m1 ?it = Some x" by (simp add: item_node_def it0)
    have "\<And>tx. name_text m x = Some tx \<Longrightarrow>
        item_text m1 ?it = Some (if has_child m x then CHR ''+'' # tx else tx)"
    proof -
      fix tx assume "name_text m x = Some tx"
      then obtain s where s: "name nd = Some s" "lookup (strs m) s = Some tx"
        using nd by (auto simp: name_text_def split: option.splits)
      show "item_text m1 ?it = Some (if has_child m x then CHR ''+'' # tx else tx)"
      proof (cases "child_head nd = None")
        case True
        with eff s have "lab = Some s" "strs mc = strs m" by auto
        with s se True nd show ?thesis
          by (simp add: item_text_def it0 has_child_def lookup_append_Some)
      next
        case False
        with eff s have l: "lab = Some (length (strs m))"
          "strs mc = strs m @ [Some (CHR ''+'' # tx)]" by auto
        have "lookup (strs m1) (length (strs m)) = Some (CHR ''+'' # tx)"
          unfolding se l(2) by (simp add: lookup_def nth_append)
        with l False nd show ?thesis by (simp add: item_text_def it0 has_child_def)
      qed
    qed
    with ref0 show ?thesis by blast
  qed
  \<comment> \<open>the conclusions\<close>
  define ents' where "ents' = ?e # ents"
  have c1: "length ents' = length (x # xs)" by (simp add: ents'_def len)
  have c3: "arr1 = take i arr @ ents' @ drop (i + length (x # xs)) arr"
    unfolding arr1 ents'_def using il
    by (simp add: take_Suc_conv_app_nth drop_update_cancel)
  have c4: "\<forall>k<length (x # xs).
         if item_ok env (i + k)
         then (\<exists>it. ents' ! k = Some it \<and> item_node m1 it = Some ((x # xs) ! k) \<and>
                    length (items m) \<le> it \<and>
                    (\<forall>tx. name_text m ((x # xs) ! k) = Some tx \<longrightarrow>
                       item_text m1 it =
                         Some (if has_child m ((x # xs) ! k) then CHR ''+'' # tx else tx)))
         else ents' ! k = None"
  proof (intro allI impI)
    fix k assume k: "k < length (x # xs)"
    show "if item_ok env (i + k)
         then (\<exists>it. ents' ! k = Some it \<and> item_node m1 it = Some ((x # xs) ! k) \<and>
                    length (items m) \<le> it \<and>
                    (\<forall>tx. name_text m ((x # xs) ! k) = Some tx \<longrightarrow>
                       item_text m1 it =
                         Some (if has_child m ((x # xs) ! k) then CHR ''+'' # tx else tx)))
         else ents' ! k = None"
    proof (cases k)
      case 0
      with head show ?thesis by (auto simp: ents'_def)
    next
      case (Suc j)
      with k have j: "j < length xs" by simp
      show ?thesis
      proof (cases "item_ok env (Suc i + j)")
        case False
        with its j Suc show ?thesis by (auto simp: ents'_def)
      next
        case True
        from its[rule_format, OF j] True
        have "\<exists>it. ents ! j = Some it \<and> item_node m1 it = Some (xs ! j) \<and>
                    length (items mc) \<le> it \<and>
                    (\<forall>tx. name_text mc (xs ! j) = Some tx \<longrightarrow>
                       item_text m1 it =
                         Some (if has_child mc (xs ! j) then CHR ''+'' # tx else tx))"
          by (simp only: if_True)
        then obtain it where it: "ents ! j = Some it" "item_node m1 it = Some (xs ! j)"
          "length (items mc) \<le> it"
          "\<forall>tx. name_text mc (xs ! j) = Some tx \<longrightarrow>
             item_text m1 it = Some (if has_child mc (xs ! j) then CHR ''+'' # tx else tx)"
          by blast
        have "length (items m) \<le> it" using it(3) ti by simp
        moreover have "\<forall>tx. name_text m (xs ! j) = Some tx \<longrightarrow>
             item_text m1 it = Some (if has_child m (xs ! j) then CHR ''+'' # tx else tx)"
          using it(4) nt by (auto simp: hc)
        ultimately show ?thesis using True Suc it(1,2) by (simp add: ents'_def)
      qed
    qed
  qed
  have c6: "\<exists>ext. items m1 = items m @ ext" unfolding ie ti by simp
  have c7: "\<exists>ext. strs m1 = strs m @ ext" unfolding se ts by simp
  have c8: "\<forall>a. lookup (nodes m1) a = lookup (nodes m) a \<or>
           (a \<in> set (x # xs) \<and>
            (\<exists>nd l. lookup (nodes m) a = Some nd \<and> child_head nd \<noteq> None \<and> label nd = None \<and>
                    lookup (nodes m1) a = Some (nd\<lparr>label := Some l\<rparr>)))"
  proof
    fix a
    show "lookup (nodes m1) a = lookup (nodes m) a \<or>
           (a \<in> set (x # xs) \<and>
            (\<exists>nd l. lookup (nodes m) a = Some nd \<and> child_head nd \<noteq> None \<and> label nd = None \<and>
                    lookup (nodes m1) a = Some (nd\<lparr>label := Some l\<rparr>)))"
    proof (cases "a = x \<and> child_head nd \<noteq> None")
      case True
      then have mc: "lookup (nodes mc) a = Some (nd\<lparr>label := Some (length (strs m))\<rparr>)"
        using tn by simp
      from nds[rule_format, of a] mc have "lookup (nodes m1) a = Some (nd\<lparr>label := Some (length (strs m))\<rparr>)"
        by auto
      with True nd lab0 show ?thesis by auto
    next
      case False
      then have "lookup (nodes mc) a = lookup (nodes m) a" using tn by auto
      with nds[rule_format, of a] show ?thesis by auto
    qed
  qed
  have c9: "\<forall>a \<in> set (x # xs). \<forall>nd. lookup (nodes m) a = Some nd \<longrightarrow> child_head nd \<noteq> None \<longrightarrow> label nd = None"
  proof (intro ballI allI impI)
    fix a nd' assume a: "a \<in> set (x # xs)" and l: "lookup (nodes m) a = Some nd'"
      and c: "child_head nd' \<noteq> None"
    show "label nd' = None"
    proof (cases "a = x")
      case True
      with l nd c lab0 show ?thesis by simp
    next
      case False
      with a tn l have "a \<in> set xs" "lookup (nodes mc) a = Some nd'" by auto
      with asr c show ?thesis by blast
    qed
  qed
  have c10: "\<forall>k<length (x # xs). has_child m ((x # xs) ! k) \<longrightarrow> label_ok env (i + k)"
  proof (intro allI impI)
    fix k assume k: "k < length (x # xs)" and h: "has_child m ((x # xs) ! k)"
    show "label_ok env (i + k)"
    proof (cases k)
      case 0
      with h nd eff show ?thesis by (auto simp: has_child_def split: if_splits)
    next
      case (Suc j)
      with k h lok show ?thesis by (simp add: hc)
    qed
  qed
  from c1 c3 c4 c6 c7 c8 c9 c10 show ?case by blast
qed

section \<open>The update as a whole\<close>

lemma label_inv_iff:
  "label_inv m view \<longleftrightarrow> (\<forall>a. label_of m a \<noteq> None \<longrightarrow> a \<in> set (referenced m view))"
proof
  assume inv: "label_inv m view"
  show "\<forall>a. label_of m a \<noteq> None \<longrightarrow> a \<in> set (referenced m view)"
  proof (intro allI impI)
    fix a assume l: "label_of m a \<noteq> None"
    then obtain nd where nd: "lookup (nodes m) a = Some nd" "label nd \<noteq> None"
      by (auto simp: label_of_def split: option.splits)
    then have "a \<in> set [0..<length (nodes m)]" by (auto dest: lookup_Some_less)
    with inv nd show "a \<in> set (referenced m view)"
      unfolding label_inv_def by (auto simp del: set_upt)
  qed
next
  assume "\<forall>a. label_of m a \<noteq> None \<longrightarrow> a \<in> set (referenced m view)"
  then show "label_inv m view"
    by (auto simp: label_inv_def label_of_def split: option.splits)
qed

lemma entries_map_Some: "entries (map Some its @ None # rest) = its"
  by (induction its) auto

lemma tree_view_update_OK_D:
  assumes "tree_view_update env m view list0 = Some (Inr (WERR_OK, m', view'))"
  shows "\<exists>xs m1 arr1. next_path (nodes m) (if list0 = None then root view else list0) xs \<and>
      items_ok env \<and>
      build_items env m (if list0 = None then root view else list0) 0
        (replicate (length xs + 1) None) = Some (Inr (WERR_OK, m1, arr1)) \<and>
      view' = view\<lparr>menu_posted := False, menu_items := arr1, current_items := Some arr1\<rparr> \<and>
      (case current_items view of None \<Rightarrow> m' = m1 | Some old \<Rightarrow> free_items_loop m1 old = Inr m')"
proof -
  let ?list = "if list0 = None then root view else list0"
  from assms obtain n where cnt: "count_items (nodes m) ?list 0 = Some (Inr n)"
    by (auto simp: tree_view_update_def Let_def split: option.splits sum.splits if_splits)
  from count_items_path[OF cnt] obtain xs where xs: "next_path (nodes m) ?list xs" "n = length xs"
    by auto
  from assms cnt have ok: "items_ok env"
    by (auto simp: tree_view_update_def Let_def split: if_splits)
  from assms cnt ok obtain m1 arr1 where
    b: "build_items env m ?list 0 (replicate (n + 1) None) = Some (Inr (WERR_OK, m1, arr1))"
    and r: "case tree_view_free_current_items m1 (view\<lparr>menu_posted := False, menu_items := arr1\<rparr>) of
              Inl e \<Rightarrow> False
            | Inr (m2, view2) \<Rightarrow> m' = m2 \<and> view' = view2\<lparr>current_items := Some arr1\<rparr>"
    by (auto simp: tree_view_update_def Let_def split: option.splits sum.splits werror.splits)
  have "view' = view\<lparr>menu_posted := False, menu_items := arr1, current_items := Some arr1\<rparr> \<and>
      (case current_items view of None \<Rightarrow> m' = m1 | Some old \<Rightarrow> free_items_loop m1 old = Inr m')"
    using r by (auto simp: tree_view_free_current_items_def split: option.splits sum.splits)
  with xs b ok show ?thesis by auto
qed

lemma item_node_ext:
  "items m1 = items m @ ext \<Longrightarrow> lookup (items m) it \<noteq> None \<Longrightarrow> item_node m1 it = item_node m it"
  by (simp add: item_node_def lookup_append_old)

lemma map_filter_nth:
  "length ys = length xs \<Longrightarrow> (\<And>k. k < length xs \<Longrightarrow> f (ys ! k) = Some (xs ! k)) \<Longrightarrow>
   List.map_filter f ys = xs"
proof (induction ys arbitrary: xs)
  case Nil
  then show ?case by simp
next
  case (Cons y ys)
  then obtain x xs' where xs: "xs = x # xs'" by (cases xs) auto
  from Cons.prems(2)[of 0] xs have y: "f y = Some x" by simp
  have "List.map_filter f ys = xs'"
  proof (rule Cons.IH)
    show "length ys = length xs'" using Cons.prems(1) xs by simp
    fix k assume "k < length xs'"
    with Cons.prems(2)[of "Suc k"] xs show "f (ys ! k) = Some (xs' ! k)" by simp
  qed
  with y xs show ?case by simp
qed

lemma update_clears_old_labels:
  assumes upd: "tree_view_update env m view list0 = Some (Inr (WERR_OK, m', view'))"
    and t: "t \<in> set (referenced m view)"
  shows "label_of m' t = None \<and> (\<forall>l. label_of m t = Some l \<longrightarrow> lookup (strs m') l = None)"
proof -
  let ?list = "if list0 = None then root view else list0"
  from tree_view_update_OK_D[OF upd] obtain xs m1 arr1 where
    xs: "next_path (nodes m) ?list xs"
    and b: "build_items env m ?list 0 (replicate (length xs + 1) None) = Some (Inr (WERR_OK, m1, arr1))"
    and fr: "case current_items view of None \<Rightarrow> m' = m1 | Some old \<Rightarrow> free_items_loop m1 old = Inr m'"
    by blast
  from t obtain old where old: "current_items view = Some old"
    by (cases "current_items view") (auto simp: referenced_def)
  with t obtain it where it: "it \<in> set (entries old)" "item_node m it = Some t"
    by (auto simp: referenced_def set_map_filter_eq)
  from fr old have loop: "free_items_loop m1 old = Inr m'" by simp
  from build_items_OK[OF xs b] obtain ie where ie: "items m1 = items m @ ie"
    and nds: "\<forall>a. lookup (nodes m1) a = lookup (nodes m) a \<or>
           (a \<in> set xs \<and>
            (\<exists>nd l. lookup (nodes m) a = Some nd \<and> child_head nd \<noteq> None \<and> label nd = None \<and>
                    lookup (nodes m1) a = Some (nd\<lparr>label := Some l\<rparr>)))"
    by blast
  have "lookup (items m) it \<noteq> None" using it(2) by (auto simp: item_node_def split: option.splits)
  from item_node_ext[OF ie this] it(2) have it1: "item_node m1 it = Some t" by simp
  let ?T = "List.map_filter (item_node m1) (entries old)"
  have tT: "t \<in> set ?T" using it(1) it1 by (auto simp: set_map_filter_eq)
  from free_items_loop_OK[OF loop]
  have n': "\<forall>a. lookup (nodes m') a =
        (if a \<in> set ?T then map_option (\<lambda>nd. nd\<lparr>label := None\<rparr>) (lookup (nodes m1) a)
         else lookup (nodes m1) a)"
    and s': "\<forall>s. lookup (strs m') s =
        (if s \<in> set (List.map_filter (label_of m1) ?T) then None else lookup (strs m1) s)"
    by blast+
  have 1: "label_of m' t = None"
    using n'[rule_format, of t] tT by (auto simp: label_of_def split: option.splits)
  have 2: "\<forall>l. label_of m t = Some l \<longrightarrow> lookup (strs m') l = None"
  proof (intro allI impI)
    fix l assume l: "label_of m t = Some l"
    then obtain nd where nd: "lookup (nodes m) t = Some nd" "label nd = Some l"
      by (auto simp: label_of_def split: option.splits)
    with nds[rule_format, of t] have "lookup (nodes m1) t = Some nd" by auto
    with nd have "label_of m1 t = Some l" by (simp add: label_of_def)
    with tT have "l \<in> set (List.map_filter (label_of m1) ?T)" by (auto simp: set_map_filter_eq)
    with s' show "lookup (strs m') l = None" by simp
  qed
  from 1 2 show ?thesis by blast
qed

lemma update_asserts:
  assumes upd: "tree_view_update env m view list0 = Some (Inr (WERR_OK, m', view'))"
    and xs: "next_path (nodes m) (if list0 = None then root view else list0) xs"
  shows "\<forall>x \<in> set xs. \<forall>nd. lookup (nodes m) x = Some nd \<longrightarrow> child_head nd \<noteq> None \<longrightarrow> label nd = None"
proof -
  let ?list = "if list0 = None then root view else list0"
  from tree_view_update_OK_D[OF upd] obtain ys m1 arr1 where
    ys: "next_path (nodes m) ?list ys"
    and b: "build_items env m ?list 0 (replicate (length ys + 1) None) = Some (Inr (WERR_OK, m1, arr1))"
    by blast
  have "ys = xs" using next_path_unique[OF ys xs] .
  with build_items_OK[OF ys b] show ?thesis by blast
qed

lemma update_preserves_inv:
  assumes upd: "tree_view_update env m view list0 = Some (Inr (WERR_OK, m', view'))"
    and inv: "label_inv m view" and live: "items_live m view"
    and all: "\<forall>i. item_ok env i"
  shows "label_inv m' view' \<and> items_live m' view'"
proof -
  let ?list = "if list0 = None then root view else list0"
  from tree_view_update_OK_D[OF upd] obtain xs m1 arr1 where
    xs: "next_path (nodes m) ?list xs"
    and b: "build_items env m ?list 0 (replicate (length xs + 1) None) = Some (Inr (WERR_OK, m1, arr1))"
    and v': "view' = view\<lparr>menu_posted := False, menu_items := arr1, current_items := Some arr1\<rparr>"
    and fr: "case current_items view of None \<Rightarrow> m' = m1 | Some old \<Rightarrow> free_items_loop m1 old = Inr m'"
    by blast
  from build_items_OK[OF xs b] obtain ents ie where
    len: "length ents = length xs"
    and arr1: "arr1 = take 0 (replicate (length xs + 1) None) @ ents @
                 drop (0 + length xs) (replicate (length xs + 1) None)"
    and its: "\<forall>k<length xs.
         if item_ok env (0 + k)
         then (\<exists>it. ents ! k = Some it \<and> item_node m1 it = Some (xs ! k) \<and>
                    length (items m) \<le> it \<and>
                    (\<forall>tx. name_text m (xs ! k) = Some tx \<longrightarrow>
                       item_text m1 it =
                         Some (if has_child m (xs ! k) then CHR ''+'' # tx else tx)))
         else ents ! k = None"
    and ie: "items m1 = items m @ ie"
    and nds: "\<forall>a. lookup (nodes m1) a = lookup (nodes m) a \<or>
           (a \<in> set xs \<and>
            (\<exists>nd l. lookup (nodes m) a = Some nd \<and> child_head nd \<noteq> None \<and> label nd = None \<and>
                    lookup (nodes m1) a = Some (nd\<lparr>label := Some l\<rparr>)))"
    by blast
  \<comment> \<open>the new array\<close>
  have ek: "\<And>k. k < length xs \<Longrightarrow>
      \<exists>it. ents ! k = Some it \<and> item_node m1 it = Some (xs ! k) \<and> length (items m) \<le> it"
    using its all by auto
  define its' where "its' = map the ents"
  have ents: "ents = map Some its'"
  proof (rule nth_equalityI)
    show "length ents = length (map Some its')" by (simp add: its'_def)
    fix k assume "k < length ents"
    with len ek[of k] show "ents ! k = map Some its' ! k" by (auto simp: its'_def)
  qed
  have "drop (0 + length xs) (replicate (length xs + 1) (None::addr option)) =
        replicate (length xs + 1 - (0 + length xs)) None"
    by (rule drop_replicate)
  then have dr: "drop (0 + length xs) (replicate (length xs + 1) (None::addr option)) = [None]"
    by simp
  have a1: "arr1 = map Some its' @ [None]" unfolding arr1 dr ents by simp
  have en: "entries arr1 = its'" unfolding a1 by (rule entries_map_Some)
  have ik: "\<And>k. k < length xs \<Longrightarrow> item_node m1 (its' ! k) = Some (xs ! k) \<and> length (items m) \<le> its' ! k"
  proof -
    fix k assume k: "k < length xs"
    from ek[OF k] obtain it where "ents ! k = Some it" "item_node m1 it = Some (xs ! k)"
      "length (items m) \<le> it" by blast
    with k len show "item_node m1 (its' ! k) = Some (xs ! k) \<and> length (items m) \<le> its' ! k"
      by (simp add: its'_def)
  qed
  have len': "length its' = length xs" by (simp add: its'_def len)
  \<comment> \<open>the old items are not among the new ones\<close>
  have new_kept: "\<And>k. k < length xs \<Longrightarrow> item_node m' (its' ! k) = Some (xs ! k)"
  proof -
    fix k assume k: "k < length xs"
    show "item_node m' (its' ! k) = Some (xs ! k)"
    proof (cases "current_items view")
      case None
      with fr ik[OF k] show ?thesis by simp
    next
      case (Some old)
      with fr have loop: "free_items_loop m1 old = Inr m'" by simp
      have "its' ! k \<notin> set (entries old)"
      proof
        assume "its' ! k \<in> set (entries old)"
        with live Some have "lookup (items m) (its' ! k) \<noteq> None"
          by (auto simp: items_live_def list_all_iff)
        then have "its' ! k < length (items m)" by (auto dest: lookup_Some_less)
        with ik[OF k] show False by simp
      qed
      with free_items_loop_OK[OF loop] have "lookup (items m') (its' ! k) = lookup (items m1) (its' ! k)"
        by simp
      with ik[OF k] show ?thesis by (simp add: item_node_def)
    qed
  qed
  have ref': "set (referenced m' view') = set xs"
  proof -
    have "List.map_filter (item_node m') its' = xs"
      by (rule map_filter_nth[OF len' new_kept])
    then show ?thesis by (simp add: referenced_def v' en)
  qed
  have live': "items_live m' view'"
    unfolding items_live_def v' list_all_iff
  proof (simp add: en, intro ballI)
    fix it assume "it \<in> set its'"
    then obtain k where "k < length xs" "it = its' ! k" using len' by (auto simp: in_set_conv_nth)
    with new_kept[of k] show "\<exists>y. lookup (items m') it = Some y"
      by (auto simp: item_node_def split: option.splits)
  qed
  have inv': "label_inv m' view'"
    unfolding label_inv_iff ref'
  proof (intro allI impI)
    fix a assume l: "label_of m' a \<noteq> None"
    have l1: "label_of m1 a \<noteq> None \<and> a \<notin> set (referenced m view)"
    proof (cases "current_items view")
      case None
      with fr l show ?thesis by (simp add: referenced_def)
    next
      case (Some old)
      with fr have loop: "free_items_loop m1 old = Inr m'" by simp
      let ?T = "List.map_filter (item_node m1) (entries old)"
      from free_items_loop_OK[OF loop]
      have n': "lookup (nodes m') a =
        (if a \<in> set ?T then map_option (\<lambda>nd. nd\<lparr>label := None\<rparr>) (lookup (nodes m1) a)
         else lookup (nodes m1) a)"
        by blast
      from l n' have aT: "a \<notin> set ?T" and "label_of m1 a \<noteq> None"
        by (auto simp: label_of_def split: option.splits if_splits)
      moreover have "a \<notin> set (referenced m view)"
      proof
        assume "a \<in> set (referenced m view)"
        then obtain it where it: "it \<in> set (entries old)" "item_node m it = Some a"
          using Some by (auto simp: referenced_def set_map_filter_eq)
        then have "lookup (items m) it \<noteq> None" by (auto simp: item_node_def split: option.splits)
        from item_node_ext[OF ie this] it have "a \<in> set ?T" by (auto simp: set_map_filter_eq)
        with aT show False by simp
      qed
      ultimately show ?thesis by simp
    qed
    from nds[rule_format, of a] show "a \<in> set xs"
    proof
      assume "lookup (nodes m1) a = lookup (nodes m) a"
      with l1 have "label_of m a \<noteq> None" by (simp add: label_of_def)
      with inv l1 show ?thesis by (simp add: label_inv_iff)
    next
      assume "a \<in> set xs \<and>
            (\<exists>nd l. lookup (nodes m) a = Some nd \<and> child_head nd \<noteq> None \<and> label nd = None \<and>
                    lookup (nodes m1) a = Some (nd\<lparr>label := Some l\<rparr>))"
      then show ?thesis by simp
    qed
  qed
  from inv' live' show ?thesis by simp
qed

section \<open>Labels and the current items\<close>

lemma abc_posted: "abc_first = Some (Inr (WERR_OK, abc_posted, abc_posted_view))"
  by code_simp

lemma abc_second_shown: "shown abc_second = Some (WERR_OK, [Some ''b1''], [Some 3])"
  by code_simp

lemma tree_node_new_labels:
  "tree_node_new node_ok name_ok m par nm = Inr (r, m1) \<Longrightarrow>
   items m1 = items m \<and> (\<forall>a. label_of m1 a = label_of m a)"
  by (cases par)
     (auto simp: tree_node_new_def label_of_def case_prod_beta Let_def fst_alloc lookup_snd_alloc
        lookup_modify lookup_length zero_node_def split: if_splits option.splits)

lemma tree_node_append_labels:
  "tree_node_append ns left right = Inr ns1 \<Longrightarrow>
   map_option label (lookup ns1 a) = map_option label (lookup ns a)"
  by (auto simp: tree_node_append_def lookup_modify Let_def option.map_comp o_def
      split: option.splits if_splits)

lemma tree_node_pop_labels:
  "tree_node_pop ns plist = Inr (n, ns1, p1) \<Longrightarrow>
   map_option label (lookup ns1 a) = map_option label (lookup ns a)"
  by (auto simp: tree_node_pop_def lookup_modify Let_def option.map_comp o_def
      split: option.splits if_splits sum.splits)

lemma label_of_nodes_update:
  "(\<And>a. map_option label (lookup ns1 a) = map_option label (lookup (nodes m) a)) \<Longrightarrow>
   label_of (m\<lparr>nodes := ns1\<rparr>) a = label_of m a"
proof -
  assume h: "\<And>a. map_option label (lookup ns1 a) = map_option label (lookup (nodes m) a)"
  from h[of a] show ?thesis
    by (cases "lookup ns1 a"; cases "lookup (nodes m) a") (auto simp: label_of_def)
qed

lemma inv_cong:
  assumes "items m1 = items m" and "\<And>a. label_of m1 a = label_of m a"
  shows "label_inv m1 view = label_inv m view" and "items_live m1 view = items_live m view"
proof -
  have "item_node m1 = item_node m"
    by (rule ext) (simp add: item_node_def assms(1))
  then have "referenced m1 view = referenced m view"
    by (simp add: referenced_def split: option.splits)
  then show "label_inv m1 view = label_inv m view"
    by (simp add: label_inv_iff assms(2))
  show "items_live m1 view = items_live m view"
    by (simp add: items_live_def assms(1) split: option.splits)
qed

text \<open>
  C9, amended. When \<^verbatim>\<open>tree_view_update\<close> returns \<^verbatim>\<open>WERR_OK\<close>: every node that an item
  of the previous \<^verbatim>\<open>current_items\<close> points to has a null label afterwards, and the
  label string it had is released; every node of the chain that has a child
  had a null label before (the assertion); and if before the call each labelled
  node was pointed to by a current item, the current items were allocated, and
  \<^verbatim>\<open>new_item\<close> succeeds throughout, then the same holds after the call. Creating,
  appending and popping nodes keep that property too.
\<close>

theorem tree_view_update_label_inv:
  "(tree_view_update env m view list0 = Some (Inr (WERR_OK, m', view')) \<longrightarrow>
      (\<forall>t \<in> set (referenced m view).
         label_of m' t = None \<and> (\<forall>l. label_of m t = Some l \<longrightarrow> lookup (strs m') l = None)) \<and>
      (\<forall>xs. next_path (nodes m) (if list0 = None then root view else list0) xs \<longrightarrow>
         (\<forall>x \<in> set xs. has_child m x \<longrightarrow> label_of m x = None)) \<and>
      (label_inv m view \<and> items_live m view \<and> (\<forall>i. item_ok env i) \<longrightarrow>
         label_inv m' view' \<and> items_live m' view')) \<and>
   (label_inv m view \<and> items_live m view \<longrightarrow>
      (\<forall>r m1. tree_node_new node_ok name_ok m par nm = Inr (r, m1) \<longrightarrow>
         label_inv m1 view \<and> items_live m1 view) \<and>
      (\<forall>ns1. tree_node_append (nodes m) left right = Inr ns1 \<longrightarrow>
         label_inv (m\<lparr>nodes := ns1\<rparr>) view \<and> items_live (m\<lparr>nodes := ns1\<rparr>) view) \<and>
      (\<forall>n ns1 p1. tree_node_pop (nodes m) plist = Inr (n, ns1, p1) \<longrightarrow>
         label_inv (m\<lparr>nodes := ns1\<rparr>) view \<and> items_live (m\<lparr>nodes := ns1\<rparr>) view))"
proof (intro conjI impI allI)
  assume upd: "tree_view_update env m view list0 = Some (Inr (WERR_OK, m', view'))"
  show "\<forall>t \<in> set (referenced m view).
         label_of m' t = None \<and> (\<forall>l. label_of m t = Some l \<longrightarrow> lookup (strs m') l = None)"
    using update_clears_old_labels[OF upd] by blast
next
  fix xs
  assume upd: "tree_view_update env m view list0 = Some (Inr (WERR_OK, m', view'))"
    and xs: "next_path (nodes m) (if list0 = None then root view else list0) xs"
  from update_asserts[OF upd xs]
  show "\<forall>x \<in> set xs. has_child m x \<longrightarrow> label_of m x = None"
    by (auto simp: has_child_def label_of_def split: option.splits)
next
  assume upd: "tree_view_update env m view list0 = Some (Inr (WERR_OK, m', view'))"
    and h: "label_inv m view \<and> items_live m view \<and> (\<forall>i. item_ok env i)"
  from update_preserves_inv[OF upd] h show "label_inv m' view'" "items_live m' view'" by blast+
next
  fix r m1
  assume h: "label_inv m view \<and> items_live m view"
    and n: "tree_node_new node_ok name_ok m par nm = Inr (r, m1)"
  from tree_node_new_labels[OF n] have "items m1 = items m" "\<And>a. label_of m1 a = label_of m a"
    by blast+
  from inv_cong[OF this] h show "label_inv m1 view" "items_live m1 view" by simp_all
next
  fix ns1
  assume h: "label_inv m view \<and> items_live m view"
    and n: "tree_node_append (nodes m) left right = Inr ns1"
  have "items (m\<lparr>nodes := ns1\<rparr>) = items m" by simp
  moreover have "\<And>a. label_of (m\<lparr>nodes := ns1\<rparr>) a = label_of m a"
    by (rule label_of_nodes_update) (rule tree_node_append_labels[OF n])
  ultimately show "label_inv (m\<lparr>nodes := ns1\<rparr>) view" "items_live (m\<lparr>nodes := ns1\<rparr>) view"
    using inv_cong[of "m\<lparr>nodes := ns1\<rparr>" m view] h by simp_all
next
  fix n ns1 p1
  assume h: "label_inv m view \<and> items_live m view"
    and n: "tree_node_pop (nodes m) plist = Inr (n, ns1, p1)"
  have "items (m\<lparr>nodes := ns1\<rparr>) = items m" by simp
  moreover have "\<And>a. label_of (m\<lparr>nodes := ns1\<rparr>) a = label_of m a"
    by (rule label_of_nodes_update) (rule tree_node_pop_labels[OF n])
  ultimately show "label_inv (m\<lparr>nodes := ns1\<rparr>) view" "items_live (m\<lparr>nodes := ns1\<rparr>) view"
    using inv_cong[of "m\<lparr>nodes := ns1\<rparr>" m view] h by simp_all
qed

theorem tree_view_update_label_inv_witness:
  "label_inv abc_posted abc_posted_view \<and> items_live abc_posted abc_posted_view \<and>
   label_of abc_posted 1 = Some 5 \<and> lookup (strs abc_posted) 5 = Some ''+b'' \<and>
   (\<exists>m' view'. tree_view_update all_ok abc_posted abc_posted_view (Some 3) =
                  Some (Inr (WERR_OK, m', view')) \<and>
               label_of m' 1 = None \<and> lookup (strs m') 5 = None \<and>
               label_inv m' view' \<and> items_live m' view')"
proof -
  have inv: "label_inv abc_posted abc_posted_view" by code_simp
  have live: "items_live abc_posted abc_posted_view" by code_simp
  have ref: "1 \<in> set (referenced abc_posted abc_posted_view)" by code_simp
  have lab: "label_of abc_posted 1 = Some 5" by code_simp
  have str: "lookup (strs abc_posted) 5 = Some ''+b''" by code_simp
  have ok: "\<forall>i. item_ok all_ok i" by (simp add: all_ok_def)
  have "then_update abc_first all_ok (Some 3) = abc_second" by (simp add: abc_second_def)
  then have run: "tree_view_update all_ok abc_posted abc_posted_view (Some 3) = abc_second"
    by (simp add: abc_posted then_update_def)
  have "\<exists>m' view'. abc_second = Some (Inr (WERR_OK, m', view'))"
    using abc_second_shown by (auto simp: shown_def split: option.splits sum.splits)
  then obtain m' view' where r: "tree_view_update all_ok abc_posted abc_posted_view (Some 3) =
      Some (Inr (WERR_OK, m', view'))"
    using run by auto
  from tree_view_update_label_inv[of all_ok abc_posted abc_posted_view "Some 3" m' view'] r inv live ok ref lab
  have "label_of m' 1 = None \<and> lookup (strs m') 5 = None \<and> label_inv m' view' \<and> items_live m' view'"
    by blast
  with r inv live lab str show ?thesis by blast
qed

section \<open>Updates that do not succeed\<close>

lemma build_items_returns:
  "next_path (nodes m) tmp xs \<Longrightarrow> \<exists>r. build_items env m tmp i arr = Some r"
proof (induction xs arbitrary: m tmp i arr)
  case Nil
  then show ?case by (subst build_items.simps) simp
next
  case (Cons x xs)
  from Cons.prems obtain nd where tmp: "tmp = Some x" and nd: "lookup (nodes m) x = Some nd"
    and np: "next_path (nodes m) (next_node nd) xs"
    by (auto split: option.splits)
  show ?case
  proof (cases "derive_label (label_ok env i) m x nd")
    case (Inl e)
    with tmp nd show ?thesis by (subst build_items.simps) simp
  next
    case (Inr o1)
    show ?thesis
    proof (cases o1)
      case None
      with Inr tmp nd show ?thesis by (subst build_items.simps) simp
    next
      case (Some p)
      obtain lab ma where p: "p = (lab, ma)" by (cases p)
      show ?thesis
      proof (cases "i < length arr")
        case False
        with Inr Some p tmp nd show ?thesis by (subst build_items.simps) simp
      next
        case True
        let ?mc = "set_item_userptr (snd (new_item (item_ok env i) ma lab (name nd)))
                     (fst (new_item (item_ok env i) ma lab (name nd))) (Some x)"
        have "\<And>a. map_option next_node (lookup (nodes ?mc) a) = map_option next_node (lookup (nodes m) a)"
          using Inr Some p nd
          by (auto simp: derive_label_def set_item_userptr_def new_item_def case_prod_beta
              lookup_modify option.map_comp o_def split: if_splits option.splits)
        from next_path_cong[of "nodes ?mc" "nodes m", OF this] np
        have "next_path (nodes ?mc) (next_node nd) xs" by simp
        from Cons.IH[OF this, of "Suc i" "arr[i := fst (new_item (item_ok env i) ma lab (name nd))]"]
        show ?thesis
          using Inr Some p tmp nd True
          by (subst build_items.simps) (simp add: case_prod_beta)
      qed
    qed
  qed
qed

lemma tree_view_update_returns:
  assumes "next_path (nodes m) (if list0 = None then root view else list0) xs"
  shows "\<exists>r. tree_view_update env m view list0 = Some r"
proof -
  let ?list = "if list0 = None then root view else list0"
  from next_path_count[OF assms, of 0]
  have c: "count_items (nodes m) ?list 0 = Some (Inr (length xs))" by simp
  from build_items_returns[OF assms, of env 0 "replicate (length xs + 1) None"]
  obtain r where "build_items env m ?list 0 (replicate (length xs + 1) None) = Some r" by blast
  with c show ?thesis
    by (auto simp: tree_view_update_def Let_def split: sum.splits werror.splits)
qed

lemma tree_view_update_no_array:
  assumes "next_path (nodes m) (if list0 = None then root view else list0) xs"
    and "\<not> items_ok env"
  shows "tree_view_update env m view list0 = Some (Inr (WERR_NOMEM, m, view))"
proof -
  from next_path_count[OF assms(1), of 0] assms(2) show ?thesis
    by (simp add: tree_view_update_def Let_def)
qed

lemma tree_view_update_no_label:
  assumes xs: "next_path (nodes m) (if list0 = None then root view else list0) xs"
    and k: "k < length xs" "has_child m (xs ! k)" "\<not> label_ok env k"
  shows "tree_view_update env m view list0 \<noteq> Some (Inr (WERR_OK, m', view'))"
proof
  let ?list = "if list0 = None then root view else list0"
  assume upd: "tree_view_update env m view list0 = Some (Inr (WERR_OK, m', view'))"
  from tree_view_update_OK_D[OF upd] obtain ys m1 arr1 where
    ys: "next_path (nodes m) ?list ys"
    and b: "build_items env m ?list 0 (replicate (length ys + 1) None) = Some (Inr (WERR_OK, m1, arr1))"
    by blast
  have "ys = xs" using next_path_unique[OF ys xs] .
  with build_items_OK[OF ys b] have "\<forall>k<length xs. has_child m (xs ! k) \<longrightarrow> label_ok env (0 + k)"
    by blast
  with k show False by simp
qed

lemma only_labels_refl: "only_labels m m"
  by (simp add: only_labels_def)

lemma only_labels_trans: "only_labels m m1 \<Longrightarrow> only_labels m1 m2 \<Longrightarrow> only_labels m m2"
  by (auto simp: only_labels_def)

lemma derive_label_only_labels:
  "derive_label ok m x nd = Inr (Some (lab, ma)) \<Longrightarrow> only_labels m ma"
  by (auto simp: derive_label_def only_labels_def alloc_def lookup_modify option.map_comp o_def
      split: if_splits option.splits)

lemma new_item_only_labels:
  "only_labels m (set_item_userptr (snd (new_item ok m lab d)) (fst (new_item ok m lab d)) p)"
  by (auto simp: only_labels_def new_item_def set_item_userptr_def alloc_def modify_append_new)

lemma build_items_only_labels:
  "build_items env m tmp i arr = Some r \<Longrightarrow>
   (case r of Inl e \<Rightarrow> True | Inr (w, m1, arr1) \<Rightarrow> only_labels m m1)"
proof (induction rule: build_items.raw_induct[rotated, consumes 1])
  case (1 f env m tmp i arr r)
  show ?case
  proof (cases tmp)
    case None
    with 1(2) show ?thesis by (auto simp: only_labels_refl)
  next
    case (Some x)
    show ?thesis
    proof (cases "lookup (nodes m) x")
      case None
      with 1(2) Some show ?thesis by auto
    next
      case nd: (Some nd)
      show ?thesis
      proof (cases "derive_label (label_ok env i) m x nd")
        case (Inl e)
        with 1(2) Some nd show ?thesis by auto
      next
        case (Inr o1)
        show ?thesis
        proof (cases o1)
          case None
          with 1(2) Some nd Inr show ?thesis by (auto simp: only_labels_refl)
        next
          case p: (Some p)
          obtain lab ma where lm: "p = (lab, ma)" by (cases p)
          show ?thesis
          proof (cases "i < length arr")
            case False
            with 1(2) Some nd Inr p lm show ?thesis by auto
          next
            case True
            let ?mc = "set_item_userptr (snd (new_item (item_ok env i) ma lab (name nd)))
                     (fst (new_item (item_ok env i) ma lab (name nd))) (Some x)"
            from 1(2) Some nd Inr p lm True
            have "f env ?mc (next_node nd) (Suc i)
                    (arr[i := fst (new_item (item_ok env i) ma lab (name nd))]) = Some r"
              by (simp add: case_prod_beta)
            note ih = 1(1)[OF this]
            have "only_labels m ma" using derive_label_only_labels Inr p lm by blast
            then have step: "only_labels m ?mc"
              using new_item_only_labels only_labels_trans by blast
            show ?thesis
            proof (cases r)
              case (Inl e)
              then show ?thesis by simp
            next
              case (Inr q)
              obtain w m1 arr1 where q: "q = (w, m1, arr1)" by (cases q)
              with ih Inr have "only_labels ?mc m1" by simp
              with step Inr q show ?thesis by (auto intro: only_labels_trans)
            qed
          qed
        qed
      qed
    qed
  qed
qed

lemma tree_view_update_NOMEM:
  assumes "tree_view_update env m view list0 = Some (Inr (WERR_NOMEM, m1, view1))"
  shows "view1 = view \<and> only_labels m m1"
proof -
  let ?list = "if list0 = None then root view else list0"
  from assms obtain n where cnt: "count_items (nodes m) ?list 0 = Some (Inr n)"
    by (auto simp: tree_view_update_def Let_def split: option.splits sum.splits if_splits)
  show ?thesis
  proof (cases "items_ok env")
    case False
    with assms cnt show ?thesis by (simp add: tree_view_update_def Let_def only_labels_refl)
  next
    case True
    with assms cnt obtain r where
      b: "build_items env m ?list 0 (replicate (n + 1) None) = Some r"
      by (auto simp: tree_view_update_def Let_def split: option.splits)
    from assms cnt True b obtain arr1 where "r = Inr (WERR_NOMEM, m1, arr1)" "view1 = view"
      by (auto simp: tree_view_update_def Let_def split: sum.splits werror.splits)
    with build_items_only_labels[OF b] show ?thesis by simp
  qed
qed

section \<open>What a successful update posts\<close>

lemma build_items_ptrs:
  assumes "next_path (nodes m) tmp xs"
    and "build_items env m tmp i arr = Some (Inr (WERR_OK, m1, arr1))"
  shows "\<forall>k<length xs. item_ok env (i + k) \<longrightarrow>
      (\<exists>it i'. arr1 ! (i + k) = Some it \<and> lookup (items m1) it = Some i' \<and>
         item_name i' = (if has_child m (xs ! k) then label_of m1 (xs ! k) else name_of m (xs ! k)) \<and>
         (has_child m (xs ! k) \<longrightarrow> (\<exists>l. label_of m1 (xs ! k) = Some l \<and> length (strs m) \<le> l)))"
  using assms
proof (induction xs arbitrary: m tmp i arr)
  case Nil
  then show ?case by simp
next
  case (Cons x xs)
  from Cons.prems(1) obtain nd where tmp: "tmp = Some x" and nd: "lookup (nodes m) x = Some nd"
    and np: "next_path (nodes m) (next_node nd) xs"
    by (auto split: option.splits)
  let ?it = "length (items m)"
  let ?e = "if item_ok env i then Some ?it else None"
  from build_items_Cons[OF nd Cons.prems(2)[unfolded tmp]] obtain mc lab where
    il: "i < length arr"
    and rec: "build_items env mc (next_node nd) (Suc i) (arr[i := ?e]) =
         Some (Inr (WERR_OK, m1, arr1))"
    and imc: "items mc =
         (if item_ok env i
          then items m @ [Some \<lparr>item_name = lab, item_description = name nd,
                                 item_userptr = Some x\<rparr>]
          else items m)"
    and eff: "if child_head nd = None then nodes mc = nodes m \<and> strs mc = strs m \<and> lab = name nd
        else label nd = None \<and> label_ok env i \<and> lab = Some (length (strs m)) \<and>
             (\<exists>s tx. name nd = Some s \<and> lookup (strs m) s = Some tx \<and>
                     strs mc = strs m @ [Some (CHR ''+'' # tx)]) \<and>
             nodes mc = modify (nodes m) x (\<lambda>n. n\<lparr>label := Some (length (strs m))\<rparr>)"
    by blast
  have tn: "\<And>a. lookup (nodes mc) a =
      (if a = x \<and> child_head nd \<noteq> None then Some (nd\<lparr>label := Some (length (strs m))\<rparr>)
       else lookup (nodes m) a)"
    using eff nd by (auto simp: lookup_modify split: if_splits)
  obtain e where ts: "strs mc = strs m @ e" using eff by (auto split: if_splits)
  have nxt: "\<And>a. map_option next_node (lookup (nodes mc) a) = map_option next_node (lookup (nodes m) a)"
    using tn nd by auto
  have np': "next_path (nodes mc) (next_node nd) xs"
    using next_path_cong[of "nodes mc" "nodes m", OF nxt] np by simp
  have hc: "\<And>a. has_child mc a = has_child m a"
    using tn nd by (auto simp: has_child_def)
  have nm: "\<And>a. name_of mc a = name_of m a"
    using tn nd by (auto simp: name_of_def)
  from build_items_OK[OF np' rec] obtain ents ie where
    arr1: "arr1 = take (Suc i) (arr[i := ?e]) @ ents @ drop (Suc i + length xs) (arr[i := ?e])"
    and ie: "items m1 = items mc @ ie"
    and nds: "\<forall>a. lookup (nodes m1) a = lookup (nodes mc) a \<or>
           (a \<in> set xs \<and>
            (\<exists>nd l. lookup (nodes mc) a = Some nd \<and> child_head nd \<noteq> None \<and> label nd = None \<and>
                    lookup (nodes m1) a = Some (nd\<lparr>label := Some l\<rparr>)))"
    by blast
  have at_i: "arr1 ! i = ?e"
    unfolding arr1 using il by (simp add: nth_append)
  note ih = Cons.IH[OF np' rec]
  show ?case
  proof (intro allI impI)
    fix k assume k: "k < length (x # xs)" and ok: "item_ok env (i + k)"
    show "\<exists>it i'. arr1 ! (i + k) = Some it \<and> lookup (items m1) it = Some i' \<and>
         item_name i' = (if has_child m ((x # xs) ! k) then label_of m1 ((x # xs) ! k)
                         else name_of m ((x # xs) ! k)) \<and>
         (has_child m ((x # xs) ! k) \<longrightarrow>
            (\<exists>l. label_of m1 ((x # xs) ! k) = Some l \<and> length (strs m) \<le> l))"
    proof (cases k)
      case 0
      with ok have ok0: "item_ok env i" by simp
      have it0: "lookup (items m1) ?it = Some \<lparr>item_name = lab, item_description = name nd,
                                    item_userptr = Some x\<rparr>"
        unfolding ie using imc ok0 by (simp add: lookup_def nth_append)
      have nm0: "item_name \<lparr>item_name = lab, item_description = name nd, item_userptr = Some x\<rparr> =
            (if has_child m x then label_of m1 x else name_of m x) \<and>
            (has_child m x \<longrightarrow> (\<exists>l. label_of m1 x = Some l \<and> length (strs m) \<le> l))"
      proof (cases "child_head nd = None")
        case True
        with eff nd show ?thesis by (simp add: has_child_def name_of_def)
      next
        case False
        with tn have "lookup (nodes mc) x = Some (nd\<lparr>label := Some (length (strs m))\<rparr>)" by simp
        with nds[rule_format, of x] have "lookup (nodes m1) x = Some (nd\<lparr>label := Some (length (strs m))\<rparr>)"
          by auto
        then have "label_of m1 x = Some (length (strs m))" by (simp add: label_of_def)
        with False eff nd show ?thesis by (simp add: has_child_def)
      qed
      from at_i ok0 it0 nm0 0 show ?thesis by auto
    next
      case (Suc j)
      with k ok have j: "j < length xs" "item_ok env (Suc i + j)" by simp_all
      from ih[rule_format, OF j] obtain it i' where
        "arr1 ! (Suc i + j) = Some it" "lookup (items m1) it = Some i'"
        "item_name i' = (if has_child mc (xs ! j) then label_of m1 (xs ! j) else name_of mc (xs ! j))"
        "has_child mc (xs ! j) \<longrightarrow> (\<exists>l. label_of m1 (xs ! j) = Some l \<and> length (strs mc) \<le> l)"
        by blast
      with Suc ts show ?thesis by (auto simp: hc nm)
    qed
  qed
qed

lemma update_new_items:
  assumes upd: "tree_view_update env m view list0 = Some (Inr (WERR_OK, m', view'))"
    and xs: "next_path (nodes m) (if list0 = None then root view else list0) xs"
    and all: "\<forall>i. item_ok env i" and live: "items_live m view"
  shows "\<exists>m1 its. length its = length xs \<and>
     view' = view\<lparr>menu_posted := False, menu_items := map Some its @ [None],
                  current_items := Some (map Some its @ [None])\<rparr> \<and>
     build_items env m (if list0 = None then root view else list0) 0
        (replicate (length xs + 1) None) = Some (Inr (WERR_OK, m1, map Some its @ [None])) \<and>
     (case current_items view of None \<Rightarrow> m' = m1 | Some old \<Rightarrow> free_items_loop m1 old = Inr m') \<and>
     (\<forall>k<length xs. lookup (items m') (its ! k) = lookup (items m1) (its ! k) \<and>
                     item_node m1 (its ! k) = Some (xs ! k))"
proof -
  let ?list = "if list0 = None then root view else list0"
  from tree_view_update_OK_D[OF upd] obtain ys m1 arr1 where
    ys: "next_path (nodes m) ?list ys"
    and b0: "build_items env m ?list 0 (replicate (length ys + 1) None) = Some (Inr (WERR_OK, m1, arr1))"
    and v': "view' = view\<lparr>menu_posted := False, menu_items := arr1, current_items := Some arr1\<rparr>"
    and fr: "case current_items view of None \<Rightarrow> m' = m1 | Some old \<Rightarrow> free_items_loop m1 old = Inr m'"
    by blast
  have yx: "ys = xs" using next_path_unique[OF ys xs] .
  note b = b0[unfolded yx]
  from build_items_OK[OF xs b] obtain ents ie where
    len: "length ents = length xs"
    and arr1: "arr1 = take 0 (replicate (length xs + 1) None) @ ents @
                 drop (0 + length xs) (replicate (length xs + 1) None)"
    and its: "\<forall>k<length xs.
         if item_ok env (0 + k)
         then (\<exists>it. ents ! k = Some it \<and> item_node m1 it = Some (xs ! k) \<and>
                    length (items m) \<le> it \<and>
                    (\<forall>tx. name_text m (xs ! k) = Some tx \<longrightarrow>
                       item_text m1 it =
                         Some (if has_child m (xs ! k) then CHR ''+'' # tx else tx)))
         else ents ! k = None"
    by blast
  have ek: "\<And>k. k < length xs \<Longrightarrow>
      \<exists>it. ents ! k = Some it \<and> item_node m1 it = Some (xs ! k) \<and> length (items m) \<le> it"
    using its all by auto
  define its' where "its' = map the ents"
  have ents: "ents = map Some its'"
  proof (rule nth_equalityI)
    show "length ents = length (map Some its')" by (simp add: its'_def)
    fix k assume "k < length ents"
    with len ek[of k] show "ents ! k = map Some its' ! k" by (auto simp: its'_def)
  qed
  have "drop (0 + length xs) (replicate (length xs + 1) (None::addr option)) =
        replicate (length xs + 1 - (0 + length xs)) None"
    by (rule drop_replicate)
  then have dr: "drop (0 + length xs) (replicate (length xs + 1) (None::addr option)) = [None]"
    by simp
  have a1: "arr1 = map Some its' @ [None]" unfolding arr1 dr ents by simp
  have len': "length its' = length xs" by (simp add: its'_def len)
  have ik: "\<And>k. k < length xs \<Longrightarrow> item_node m1 (its' ! k) = Some (xs ! k) \<and> length (items m) \<le> its' ! k"
  proof -
    fix k assume k: "k < length xs"
    from ek[OF k] obtain it where "ents ! k = Some it" "item_node m1 it = Some (xs ! k)"
      "length (items m) \<le> it" by blast
    with k len show "item_node m1 (its' ! k) = Some (xs ! k) \<and> length (items m) \<le> its' ! k"
      by (simp add: its'_def)
  qed
  have kept: "\<forall>k<length xs. lookup (items m') (its' ! k) = lookup (items m1) (its' ! k) \<and>
                     item_node m1 (its' ! k) = Some (xs ! k)"
  proof (intro allI impI)
    fix k assume k: "k < length xs"
    have "lookup (items m') (its' ! k) = lookup (items m1) (its' ! k)"
    proof (cases "current_items view")
      case None
      with fr show ?thesis by simp
    next
      case (Some old)
      with fr have loop: "free_items_loop m1 old = Inr m'" by simp
      have "its' ! k \<notin> set (entries old)"
      proof
        assume "its' ! k \<in> set (entries old)"
        with live Some have "lookup (items m) (its' ! k) \<noteq> None"
          by (auto simp: items_live_def list_all_iff)
        then have "its' ! k < length (items m)" by (auto dest: lookup_Some_less)
        with ik[OF k] show False by simp
      qed
      with free_items_loop_OK[OF loop] show ?thesis by simp
    qed
    with ik[OF k] show "lookup (items m') (its' ! k) = lookup (items m1) (its' ! k) \<and>
                     item_node m1 (its' ! k) = Some (xs ! k)" by simp
  qed
  from len' v' b fr kept show ?thesis unfolding a1 by blast
qed

lemma tree_view_update_posts:
  assumes upd: "tree_view_update env m view list0 = Some (Inr (WERR_OK, m', view'))"
    and xs: "next_path (nodes m) (if list0 = None then root view else list0) xs"
    and all: "\<forall>i. item_ok env i" and live: "items_live m view"
  shows "current_items view' = Some (menu_items view')"
    and "length (entries (menu_items view')) = length xs"
    and "back_refs m' view' = map Some xs"
    and "(\<forall>x \<in> set xs. name_text m x \<noteq> None) \<Longrightarrow>
         (\<forall>x \<in> set xs. has_child m x \<longrightarrow> x \<notin> set (referenced m view)) \<Longrightarrow>
         (\<forall>t \<in> set (referenced m view). \<forall>l. label_of m t = Some l \<longrightarrow>
            lookup (strs m) l \<noteq> None \<and> (\<forall>x \<in> set xs. name_of m x \<noteq> Some l)) \<Longrightarrow>
         displayed m' view' =
           map (\<lambda>x. map_option (\<lambda>tx. if has_child m x then CHR ''+'' # tx else tx) (name_text m x)) xs"
proof -
  let ?list = "if list0 = None then root view else list0"
  from update_new_items[OF upd xs all live] obtain m1 its where
    len: "length its = length xs"
    and v': "view' = view\<lparr>menu_posted := False, menu_items := map Some its @ [None],
                  current_items := Some (map Some its @ [None])\<rparr>"
    and b: "build_items env m ?list 0 (replicate (length xs + 1) None) =
              Some (Inr (WERR_OK, m1, map Some its @ [None]))"
    and fr: "case current_items view of None \<Rightarrow> m' = m1 | Some old \<Rightarrow> free_items_loop m1 old = Inr m'"
    and kept: "\<forall>k<length xs. lookup (items m') (its ! k) = lookup (items m1) (its ! k) \<and>
                     item_node m1 (its ! k) = Some (xs ! k)"
    by blast
  have en: "entries (menu_items view') = its" by (simp add: v' entries_map_Some)
  show "current_items view' = Some (menu_items view')" by (simp add: v')
  show "length (entries (menu_items view')) = length xs" by (simp add: en len)
  show "back_refs m' view' = map Some xs"
    unfolding back_refs_def en
  proof (rule nth_equalityI)
    show "length (map (item_node m') its) = length (map Some xs)" by (simp add: len)
    fix k assume "k < length (map (item_node m') its)"
    then have k: "k < length xs" by (simp add: len)
    with kept have "item_node m' (its ! k) = Some (xs ! k)" by (simp add: item_node_def)
    with k len show "map (item_node m') its ! k = map Some xs ! k" by simp
  qed
  assume names: "\<forall>x \<in> set xs. name_text m x \<noteq> None"
    and sep1: "\<forall>x \<in> set xs. has_child m x \<longrightarrow> x \<notin> set (referenced m view)"
    and sep2: "\<forall>t \<in> set (referenced m view). \<forall>l. label_of m t = Some l \<longrightarrow>
            lookup (strs m) l \<noteq> None \<and> (\<forall>x \<in> set xs. name_of m x \<noteq> Some l)"
  from build_items_OK[OF xs b] obtain ents ie where
    elen: "length ents = length xs"
    and arr1: "map Some its @ [None] = take 0 (replicate (length xs + 1) None) @ ents @
                 drop (0 + length xs) (replicate (length xs + 1) None)"
    and txts: "\<forall>k<length xs.
         if item_ok env (0 + k)
         then (\<exists>it. ents ! k = Some it \<and> item_node m1 it = Some (xs ! k) \<and>
                    length (items m) \<le> it \<and>
                    (\<forall>tx. name_text m (xs ! k) = Some tx \<longrightarrow>
                       item_text m1 it =
                         Some (if has_child m (xs ! k) then CHR ''+'' # tx else tx)))
         else ents ! k = None"
    and ie: "items m1 = items m @ ie"
    and nds: "\<forall>a. lookup (nodes m1) a = lookup (nodes m) a \<or>
           (a \<in> set xs \<and>
            (\<exists>nd l. lookup (nodes m) a = Some nd \<and> child_head nd \<noteq> None \<and> label nd = None \<and>
                    lookup (nodes m1) a = Some (nd\<lparr>label := Some l\<rparr>)))"
    by blast
  have ents: "ents = map Some its"
    using arr1 elen len by (simp add: append_eq_append_conv)
  note ptrs = build_items_ptrs[OF xs b]
  show "displayed m' view' =
           map (\<lambda>x. map_option (\<lambda>tx. if has_child m x then CHR ''+'' # tx else tx) (name_text m x)) xs"
    unfolding displayed_def en
  proof (rule nth_equalityI)
    show "length (map (item_text m') its) =
          length (map (\<lambda>x. map_option (\<lambda>tx. if has_child m x then CHR ''+'' # tx else tx)
                              (name_text m x)) xs)"
      by (simp add: len)
    fix k assume "k < length (map (item_text m') its)"
    then have k: "k < length xs" by (simp add: len)
    let ?x = "xs ! k" and ?it = "its ! k"
    from k have "?x \<in> set xs" by simp
    with names obtain tx where tx: "name_text m ?x = Some tx" by blast
    from txts[rule_format, OF k] all ents k len tx
    have t1: "item_text m1 ?it = Some (if has_child m ?x then CHR ''+'' # tx else tx)"
      by auto
    from ptrs[rule_format, OF k] all k len obtain i' where
      i': "lookup (items m1) ?it = Some i'"
      "item_name i' = (if has_child m ?x then label_of m1 ?x else name_of m ?x)"
      "has_child m ?x \<longrightarrow> (\<exists>l. label_of m1 ?x = Some l \<and> length (strs m) \<le> l)"
      by (auto simp: nth_append)
    from t1 i'(1) obtain s where s: "item_name i' = Some s"
      "lookup (strs m1) s = Some (if has_child m ?x then CHR ''+'' # tx else tx)"
      by (auto simp: item_text_def split: option.splits)
    have keep: "lookup (strs m') s = lookup (strs m1) s"
    proof (cases "current_items view")
      case None
      with fr show ?thesis by simp
    next
      case (Some old)
      with fr have loop: "free_items_loop m1 old = Inr m'" by simp
      let ?T = "List.map_filter (item_node m1) (entries old)"
      have "s \<notin> set (List.map_filter (label_of m1) ?T)"
      proof
        assume "s \<in> set (List.map_filter (label_of m1) ?T)"
        then obtain t it where t: "it \<in> set (entries old)" "item_node m1 it = Some t"
          "label_of m1 t = Some s"
          by (auto simp: set_map_filter_eq)
        from live Some t(1) have "lookup (items m) it \<noteq> None"
          by (auto simp: items_live_def list_all_iff)
        from item_node_ext[OF ie this] t(2) have "item_node m it = Some t" by simp
        with t(1) Some have tr: "t \<in> set (referenced m view)"
          by (auto simp: referenced_def set_map_filter_eq)
        have "lookup (nodes m1) t = lookup (nodes m) t"
          using nds[rule_format, of t] sep1 tr by (auto simp: has_child_def)
        with t(3) have lt: "label_of m t = Some s" by (simp add: label_of_def)
        with sep2 tr have v: "lookup (strs m) s \<noteq> None" and n: "\<forall>x \<in> set xs. name_of m x \<noteq> Some s"
          by blast+
        show False
        proof (cases "has_child m ?x")
          case True
          with i'(2,3) s(1) have "length (strs m) \<le> s" by auto
          moreover from v have "s < length (strs m)" by (auto dest: lookup_Some_less)
          ultimately show False by simp
        next
          case False
          with i'(2) s(1) have "name_of m ?x = Some s" by simp
          moreover from k have "?x \<in> set xs" by simp
          ultimately show False using n by blast
        qed
      qed
      with free_items_loop_OK[OF loop] show ?thesis by simp
    qed
    have "item_text m' ?it = Some (if has_child m ?x then CHR ''+'' # tx else tx)"
      using kept[rule_format, OF k] i'(1) s keep by (simp add: item_text_def)
    with k len tx show "map (item_text m') its ! k =
          map (\<lambda>x. map_option (\<lambda>tx. if has_child m x then CHR ''+'' # tx else tx)
                              (name_text m x)) xs ! k"
      by simp
  qed
qed

section \<open>The first node after a pop\<close>

lemma tree_node_pop_parent:
  "tree_node_pop ns plist = Inr (n, ns1, p1) \<Longrightarrow>
   map_option parent (lookup ns1 b) = map_option parent (lookup ns b)"
  by (auto simp: tree_node_pop_def lookup_modify Let_def option.map_comp o_def
      split: option.splits if_splits sum.splits)

lemma tree_node_pop_child_head:
  "tree_node_pop ns plist = Inr (n, ns1, p1) \<Longrightarrow>
   map_option child_head (lookup ns1 b) = map_option child_head (lookup ns b)"
  by (auto simp: tree_node_pop_def lookup_modify Let_def option.map_comp o_def
      split: option.splits if_splits sum.splits)

lemma pop_then_first_not_popped:
  assumes sc: "sibling_chain ns pp (pre @ a # post)"
    and ne: "pre @ post \<noteq> []" and hd: "pp \<noteq> None \<longrightarrow> pre \<noteq> []"
  shows "\<exists>ns1 r. tree_node_pop ns (Some a) = Inr (Some a, ns1, r) \<and>
           sibling_chain ns1 pp (pre @ post) \<and>
           tree_node_first ns1 r = Some (Inr (Some (hd (pre @ post)))) \<and>
           hd (pre @ post) \<noteq> a"
proof -
  from sc have d: "dll ns None (pre @ a # post) None" and dist: "distinct (pre @ a # post)"
    by (simp_all add: sibling_chain_def)
  from pop_dll[OF d dist] obtain ns1 where
    p: "tree_node_pop ns (Some a) = Inr (Some a, ns1, last_or (first_or None post) pre)"
    and d1: "dll ns1 None (pre @ post) None" by blast
  let ?r = "last_or (first_or None post) pre"
  have par: "\<And>b. map_option parent (lookup ns1 b) = map_option parent (lookup ns b)"
    by (rule tree_node_pop_parent[OF p])
  have ch: "\<And>b. map_option child_head (lookup ns1 b) = map_option child_head (lookup ns b)"
    by (rule tree_node_pop_child_head[OF p])
  have hdeq: "pp \<noteq> None \<Longrightarrow> hd (pre @ post) = hd (pre @ a # post)"
    using hd by (cases pre) auto
  have sc1: "sibling_chain ns1 pp (pre @ post)"
    unfolding sibling_chain_def
    using sc ne d1 dist hdeq
    by (auto simp: sibling_chain_def par ch list_all_iff split: option.splits)
  have "\<exists>x. ?r = Some x \<and> x \<in> set (pre @ post)"
    using ne by (cases post) (auto simp: last_or_def)
  then obtain x where x: "?r = Some x" "x \<in> set (pre @ post)" by blast
  from first_sibling_chain[OF sc1 x(2)] x(1)
  have f: "tree_node_first ns1 ?r = Some (Inr (Some (hd (pre @ post))))" by simp
  have "hd (pre @ post) \<in> set (pre @ post)" using ne by (rule hd_in_set)
  with dist have "hd (pre @ post) \<noteq> a" by auto
  with p sc1 f show ?thesis by blast
qed

section \<open>Updating the same chain again\<close>

lemma abc_refresh_asserts: "then_update abc_first all_ok (Some 0) = Some (Inl AssertFailed)"
  by code_simp

end
